theory Spec2Isabelle
  imports Complex_Main "HOL-Library.Word"
begin

unbundle bit_operations_syntax

section \<open>Machine types\<close>

type_synonym u8 = "8 word"
type_synonym u16 = "16 word"
type_synonym u32 = "32 word"
type_synonym u64 = "64 word"

section \<open>Bandit arm masks and the uniform selector\<close>

text \<open>
  Every selector receives \<^verbatim>\<open>u8* mask\<close>, which may be \<^verbatim>\<open>NULL\<close>; the test
  \<^verbatim>\<open>mask && mask[i]\<close> skips arm \<open>i\<close>.  The mask is \<open>None\<close> for \<^verbatim>\<open>NULL\<close>.
\<close>

definition is_masked :: "u8 list option \<Rightarrow> nat \<Rightarrow> bool" where
  "is_masked msk i = (case msk of None \<Rightarrow> False | Some m \<Rightarrow> m ! i \<noteq> 0)"

text \<open>
  \<^verbatim>\<open>uniform_select_arm\<close>, first loop: \<^verbatim>\<open>for (i = 0; i < n; i++) { if (mask && mask[i]) continue; cnt++; }\<close>.
\<close>

function uniform_count :: "u8 list option \<Rightarrow> nat \<Rightarrow> nat \<Rightarrow> nat \<Rightarrow> nat" where
  "uniform_count msk n i cnt =
     (if i < n then
        (if is_masked msk i then uniform_count msk n (i + 1) cnt
         else uniform_count msk n (i + 1) (cnt + 1))
      else cnt)"
  by pat_completeness auto
termination
  by (relation "measure (\<lambda>(msk, n, i, cnt). n - i)") auto

text \<open>
  Second loop: \<^verbatim>\<open>for (i = 0; i < n; i++) { if (mask && mask[i]) continue; if (!k) return i; --k; }\<close>.
  Leaving the loop reaches \<^verbatim>\<open>assert(0)\<close>, which is the value \<open>None\<close>.
\<close>

function uniform_pick :: "u8 list option \<Rightarrow> nat \<Rightarrow> nat \<Rightarrow> nat \<Rightarrow> nat option" where
  "uniform_pick msk n i k =
     (if i < n then
        (if is_masked msk i then uniform_pick msk n (i + 1) k
         else if k = 0 then Some i
         else uniform_pick msk n (i + 1) (k - 1))
      else None)"
  by pat_completeness auto
termination
  by (relation "measure (\<lambda>(msk, n, i, k). n - i)") auto

text \<open>
  \<^verbatim>\<open>rand_below\<close> is declared outside this file; it is a parameter here
  (\<open>rand_below m\<close> is the value drawn for limit \<open>m\<close>).
\<close>

definition uniform_select_arm :: "(nat \<Rightarrow> nat) \<Rightarrow> nat \<Rightarrow> u8 list option \<Rightarrow> nat option" where
  "uniform_select_arm rand_below n msk =
     (let cnt = uniform_count msk n 0 0;
          k = rand_below cnt
      in uniform_pick msk n 0 k)"

declare uniform_count.simps [simp del] uniform_pick.simps [simp del]


section \<open>Buffers\<close>

text \<open>
  A buffer is the list of its bytes.  \<open>buf_write dst off src\<close> is
  \<^verbatim>\<open>memcpy(dst + off, src, n)\<close> for the \<open>n\<close> bytes \<open>src\<close>; \<open>buf_move buf dst src n\<close> is
  \<^verbatim>\<open>memmove(buf + dst, buf + src, n)\<close> inside one buffer.
\<close>

definition buf_write :: "'a list \<Rightarrow> nat \<Rightarrow> 'a list \<Rightarrow> 'a list" where
  "buf_write dst off src = take off dst @ src @ drop (off + length src) dst"

definition buf_move :: "'a list \<Rightarrow> nat \<Rightarrow> nat \<Rightarrow> nat \<Rightarrow> 'a list" where
  "buf_move buf dst src n = buf_write buf dst (take n (drop src buf))"

text \<open>
  A write outside a buffer or array is undefined behaviour in C; the model stops there with
  a \<open>fault\<close>.  \<open>store buf p bs\<close> writes the bytes \<open>bs\<close> at offset \<open>p\<close> of a buffer whose
  allocation is the whole list.
\<close>

datatype fault = Position_Map_Overflow | Buffer_Overflow

definition store :: "u8 list \<Rightarrow> nat \<Rightarrow> u8 list \<Rightarrow> fault + u8 list" where
  "store buf p bs = (if p + length bs \<le> length buf then Inr (buf_write buf p bs) else Inl Buffer_Overflow)"

text \<open>
  \<^verbatim>\<open>*(u16 *)(mem + p)\<close> and \<^verbatim>\<open>*(u32 *)(mem + p)\<close>, least significant byte first (the layout
  of the x86 targets), and the bytes of a value in that order.
\<close>

definition load16 :: "u8 list \<Rightarrow> nat \<Rightarrow> u16" where
  "load16 mem p = ucast (mem ! p) OR push_bit 8 (ucast (mem ! (p + 1)))"

definition bytes16 :: "u16 \<Rightarrow> u8 list" where
  "bytes16 v = [ucast v, ucast (drop_bit 8 v)]"

definition load32 :: "u8 list \<Rightarrow> nat \<Rightarrow> u32" where
  "load32 mem p =
     ucast (mem ! p) OR push_bit 8 (ucast (mem ! (p + 1))) OR
     push_bit 16 (ucast (mem ! (p + 2))) OR push_bit 24 (ucast (mem ! (p + 3)))"

definition bytes32 :: "u32 \<Rightarrow> u8 list" where
  "bytes32 v = [ucast v, ucast (drop_bit 8 v), ucast (drop_bit 16 v), ucast (drop_bit 24 v)]"

section \<open>Trimming for a branch: \<^verbatim>\<open>trim_case_rb\<close>\<close>

text \<open>
  The constants \<^verbatim>\<open>TRIM_START_STEPS\<close>, \<^verbatim>\<open>TRIM_END_STEPS\<close>, \<^verbatim>\<open>TRIM_MIN_BYTES\<close> and the helper
  \<^verbatim>\<open>next_p2\<close> are declared outside this file and are parameters.  The executor is the
  parameter \<open>run\<close>: for the candidate written by \<^verbatim>\<open>common_fuzz_stuff(afl, out_buf, n)\<close> it
  gives the pair (\<^verbatim>\<open>afl->stop_soon || fault\<close>, \<^verbatim>\<open>hits_branch(afl, afl->rb_fuzzing - 1)\<close>).
  The trimmer's state is (\<^verbatim>\<open>in_buf\<close>, \<^verbatim>\<open>out_buf\<close>, \<^verbatim>\<open>in_len\<close>, \<^verbatim>\<open>len_p2\<close>).
\<close>

record trim_consts =
  TRIM_START_STEPS :: nat
  TRIM_END_STEPS :: nat
  TRIM_MIN_BYTES :: nat

type_synonym trim_state = "u8 list \<times> u8 list \<times> nat \<times> nat"

text \<open>
  The inner loop \<^verbatim>\<open>while (remove_pos < in_len)\<close>.  The result is \<open>None\<close> when the loop
  does not return; its flag is \<open>True\<close> for \<^verbatim>\<open>goto abort_rb_trimming\<close>.
\<close>

partial_function (option) trim_rb_inner ::
  "(u8 list \<Rightarrow> bool \<times> bool) \<Rightarrow> (nat \<Rightarrow> nat) \<Rightarrow> nat \<Rightarrow> nat \<Rightarrow> trim_state \<Rightarrow>
     (bool \<times> trim_state) option" where
  "trim_rb_inner run next_p2 remove_len remove_pos st =
     (case st of (in_buf, out_buf, in_len, len_p2) \<Rightarrow>
        if remove_pos < in_len then
          (let trim_avail = min remove_len (in_len - remove_pos);
               out_buf1 = buf_write out_buf 0 (take remove_pos in_buf);
               out_buf2 = buf_write out_buf1 remove_pos
                 (take (in_len - remove_pos - trim_avail) (drop (remove_pos + trim_avail) in_buf));
               res = run (take (in_len - trim_avail) out_buf2)
           in if fst res then Some (True, (in_buf, out_buf2, in_len, len_p2))
              else if snd res then
                (let move_tail = in_len - remove_pos - trim_avail;
                     in_len' = in_len - trim_avail
                 in trim_rb_inner run next_p2 remove_len remove_pos
                      (buf_move in_buf remove_pos (remove_pos + trim_avail) move_tail,
                       out_buf2, in_len', next_p2 in_len'))
              else trim_rb_inner run next_p2 remove_len (remove_pos + remove_len)
                     (in_buf, out_buf2, in_len, len_p2))
        else Some (False, st))"

text \<open>
  The outer loop
  \<^verbatim>\<open>while (remove_len >= MAX(len_p2 / TRIM_END_STEPS, (u32) TRIM_MIN_BYTES))\<close>, ending at
  \<^verbatim>\<open>abort_rb_trimming: return in_len\<close>.
\<close>

partial_function (option) trim_rb_outer ::
  "trim_consts \<Rightarrow> (u8 list \<Rightarrow> bool \<times> bool) \<Rightarrow> (nat \<Rightarrow> nat) \<Rightarrow> nat \<Rightarrow> trim_state \<Rightarrow>
     trim_state option" where
  "trim_rb_outer c run next_p2 remove_len st =
     (case st of (in_buf, out_buf, in_len, len_p2) \<Rightarrow>
        if remove_len \<ge> max (len_p2 div TRIM_END_STEPS c) (TRIM_MIN_BYTES c) then
          Option.bind (trim_rb_inner run next_p2 remove_len 0 st)
            (\<lambda>r. if fst r then Some (snd r)
                 else trim_rb_outer c run next_p2 (remove_len div 2) (snd r))
        else Some st)"

declare trim_rb_inner.simps [code] trim_rb_outer.simps [code]

text \<open>
  \<^verbatim>\<open>trim_case_rb(afl, in_buf, in_len, out_buf)\<close>; \<open>rb_fuzzing\<close> is \<^verbatim>\<open>afl->rb_fuzzing\<close>.
  The result is the two buffers and the returned \<^verbatim>\<open>u32\<close>.
\<close>

definition trim_case_rb ::
  "trim_consts \<Rightarrow> (u8 list \<Rightarrow> bool \<times> bool) \<Rightarrow> (nat \<Rightarrow> nat) \<Rightarrow> nat \<Rightarrow>
     u8 list \<Rightarrow> nat \<Rightarrow> u8 list \<Rightarrow> (u8 list \<times> u8 list \<times> nat) option" where
  "trim_case_rb c run next_p2 rb_fuzzing in_buf in_len out_buf =
     (if rb_fuzzing = 0 then Some (in_buf, out_buf, in_len)
      else if in_len < 5 then Some (in_buf, out_buf, 0)
      else
        (let len_p2 = next_p2 in_len;
             remove_len = max (len_p2 div TRIM_START_STEPS c) (TRIM_MIN_BYTES c)
         in map_option (\<lambda>(in_buf', out_buf', in_len', len_p2'). (in_buf', out_buf', in_len'))
              (trim_rb_outer c run next_p2 remove_len (in_buf, out_buf, in_len, len_p2))))"

text \<open>
  The caller in \<^verbatim>\<open>fuzz_one_original\<close>:
  \<^verbatim>\<open>if (afl->rb_fuzzing && afl->trim_for_branch) { u32 trim_len = trim_case_rb(afl, in_buf, len, out_buf); if (trim_len > 0) { len = trim_len; ... } }\<close>.
  The result is the two buffers and the driver's \<^verbatim>\<open>len\<close>.
\<close>

definition rb_trim_stage ::
  "trim_consts \<Rightarrow> (u8 list \<Rightarrow> bool \<times> bool) \<Rightarrow> (nat \<Rightarrow> nat) \<Rightarrow> nat \<Rightarrow> bool \<Rightarrow>
     u8 list \<Rightarrow> nat \<Rightarrow> u8 list \<Rightarrow> (u8 list \<times> u8 list \<times> nat) option" where
  "rb_trim_stage c run next_p2 rb_fuzzing trim_for_branch in_buf len out_buf =
     (if rb_fuzzing \<noteq> 0 \<and> trim_for_branch then
        map_option (\<lambda>(in_buf', out_buf', trim_len).
            (in_buf', out_buf', if trim_len > 0 then trim_len else len))
          (trim_case_rb c run next_p2 rb_fuzzing in_buf len out_buf)
      else Some (in_buf, out_buf, len))"

section \<open>The branch mask\<close>

text \<open>
  One mask byte per input byte and one trailing byte; bit 1 is OVERWRITE_SAFE, bit 2 is
  DELETE_SAFE, bit 4 is INSERT_BEFORE_SAFE.
\<close>

definition OVERWRITE_SAFE :: u8 where "OVERWRITE_SAFE = 1"
definition DELETE_SAFE :: u8 where "DELETE_SAFE = 2"
definition INSERT_BEFORE_SAFE :: u8 where "INSERT_BEFORE_SAFE = 4"

text \<open>
  \<^verbatim>\<open>alloc_branch_mask(size)\<close>: \<^verbatim>\<open>NULL\<close> (\<open>None\<close>) for size 0, else \<^verbatim>\<open>memset(mem, 7, size)\<close>
  and \<^verbatim>\<open>mem[size - 1] = 4\<close>.
\<close>

definition alloc_branch_mask :: "nat \<Rightarrow> u8 list option" where
  "alloc_branch_mask sz =
     (if sz = 0 then None else Some ((replicate sz 7)[sz - 1 := 4]))"

text \<open>
  The allocation in \<^verbatim>\<open>fuzz_one_original\<close>: permissive in vanilla or shadow mode or without
  \<^verbatim>\<open>use_branch_mask\<close>, else \<^verbatim>\<open>ck_alloc(len + 1)\<close>, which is zeroed.
\<close>

definition init_branch_mask :: "bool \<Rightarrow> bool \<Rightarrow> nat \<Rightarrow> nat \<Rightarrow> u8 list option" where
  "init_branch_mask vanilla_afl shadow_mode use_branch_mask len =
     (if vanilla_afl \<or> shadow_mode \<or> use_branch_mask = 0 then alloc_branch_mask (len + 1)
      else Some (replicate (len + 1) 0))"

text \<open>
  A stage either runs to its end or leaves through \<^verbatim>\<open>goto abandon_entry\<close>.
\<close>

datatype 'a staged = Abandoned | Completed 'a

text \<open>
  The walking-byte stage as far as it writes the mask (its effector-map bookkeeping does
  not touch \<^verbatim>\<open>branch_mask\<close>).  \<open>rb\<close> is the guard
  \<^verbatim>\<open>afl->rb_fuzzing && !afl->shadow_mode && afl->use_branch_mask > 0\<close>; \<open>run\<close> gives, for a
  candidate, whether \<^verbatim>\<open>common_fuzz_stuff\<close> asked to abandon and whether
  \<^verbatim>\<open>hits_branch(afl, afl->rb_fuzzing - 1)\<close> held afterwards.
\<close>

function flip8_mask ::
  "(u8 list \<Rightarrow> bool \<times> bool) \<Rightarrow> bool \<Rightarrow> u8 list \<Rightarrow> nat \<Rightarrow> nat \<Rightarrow> u8 list \<Rightarrow> u8 list staged" where
  "flip8_mask run rb out_buf len cur bm =
     (if cur < len then
        (let res = run (out_buf[cur := (out_buf ! cur) XOR 0xFF])
         in if fst res then Abandoned
            else flip8_mask run rb out_buf len (cur + 1)
                   (if rb \<and> snd res then bm[cur := 1] else bm))
      else Completed bm)"
  by pat_completeness auto
termination
  by (relation "measure (\<lambda>(run, rb, out_buf, len, cur, bm). len - cur)") auto

text \<open>
  Stage \<^verbatim>\<open>rbrem8\<close>: the candidate is the input without byte \<open>cur\<close>; a hit adds 2.
\<close>

function rbrem8 ::
  "(u8 list \<Rightarrow> bool \<times> bool) \<Rightarrow> u8 list \<Rightarrow> nat \<Rightarrow> nat \<Rightarrow> u8 list \<Rightarrow> u8 list staged" where
  "rbrem8 run out_buf len cur bm =
     (if cur < len then
        (let tmp_buf = take cur out_buf @ take (len - cur - 1) (drop (1 + cur) out_buf);
             res = run tmp_buf
         in if fst res then Abandoned
            else rbrem8 run out_buf len (cur + 1)
                   (if snd res then bm[cur := bm ! cur + 2] else bm))
      else Completed bm)"
  by pat_completeness auto
termination
  by (relation "measure (\<lambda>(run, out_buf, len, cur, bm). len - cur)") auto

text \<open>
  Stage \<^verbatim>\<open>rbadd8\<close>, for \<open>cur\<close> from 0 to \<open>len\<close> inclusive: the candidate has the byte
  \<^verbatim>\<open>rand_below(afl, 256)\<close> (here \<open>rnd cur\<close>) inserted before position \<open>cur\<close>; a hit adds 4.
\<close>

function rbadd8 ::
  "(u8 list \<Rightarrow> bool \<times> bool) \<Rightarrow> (nat \<Rightarrow> u8) \<Rightarrow> u8 list \<Rightarrow> nat \<Rightarrow> nat \<Rightarrow> u8 list \<Rightarrow>
     u8 list staged" where
  "rbadd8 run rnd out_buf len cur bm =
     (if cur \<le> len then
        (let tmp_buf = take cur out_buf @ [rnd cur] @ take (len - cur) (drop cur out_buf);
             res = run tmp_buf
         in if fst res then Abandoned
            else rbadd8 run rnd out_buf len (cur + 1)
                   (if snd res then bm[cur := bm ! cur + 4] else bm))
      else Completed bm)"
  by pat_completeness auto
termination
  by (relation "measure (\<lambda>(run, rnd, out_buf, len, cur, bm). Suc len - cur)") auto

text \<open>
  The mask of the deterministic stage: the walking-byte stage, then, under the guard
  \<open>rb\<close>, the stages \<^verbatim>\<open>rbrem8\<close> and \<^verbatim>\<open>rbadd8\<close>.
\<close>

definition build_branch_mask ::
  "(u8 list \<Rightarrow> bool \<times> bool) \<Rightarrow> (nat \<Rightarrow> u8) \<Rightarrow> bool \<Rightarrow> u8 list \<Rightarrow> nat \<Rightarrow> u8 list \<Rightarrow>
     u8 list staged" where
  "build_branch_mask run rnd rb out_buf len bm =
     (case flip8_mask run rb out_buf len 0 bm of
        Abandoned \<Rightarrow> Abandoned
      | Completed bm1 \<Rightarrow>
          if rb then
            (case rbrem8 run out_buf len 0 bm1 of
               Abandoned \<Rightarrow> Abandoned
             | Completed bm2 \<Rightarrow> rbadd8 run rnd out_buf len 0 bm2)
          else Completed bm1)"

declare flip8_mask.simps [simp del] rbrem8.simps [simp del] rbadd8.simps [simp del]


section \<open>The rare-branch selector\<close>

text \<open>
  \<^verbatim>\<open>contains_id(branch_id, branch_ids)\<close> scans an \<^verbatim>\<open>int\<close> array up to its terminator
  \<open>-1\<close>.  Branch ids are not negative, so the array is the list of its entries before the
  terminator.
\<close>

fun contains_id :: "int \<Rightarrow> int list \<Rightarrow> bool" where
  "contains_id branch_id [] = False"
| "contains_id branch_id (b # branch_ids) =
     (if b = branch_id then True else contains_id branch_id branch_ids)"

text \<open>
  \<^verbatim>\<open>while (cur_hits >>= 1) highest_order_bit++;\<close>
\<close>

function hob_loop :: "nat \<Rightarrow> int \<Rightarrow> int" where
  "hob_loop cur_hits highest_order_bit =
     (if cur_hits div 2 \<noteq> 0 then hob_loop (cur_hits div 2) (highest_order_bit + 1)
      else highest_order_bit)"
  by pat_completeness auto
termination
  by (relation "measure (\<lambda>(cur_hits, hob). cur_hits)") auto

text \<open>
  The part of \<^verbatim>\<open>afl_state_t\<close> the selector reads: \<^verbatim>\<open>fsrv.map_size\<close>, the table
  \<^verbatim>\<open>hit_bits\<close> (64-bit counters), \<^verbatim>\<open>blacklist\<close>, \<^verbatim>\<open>max_rare_branches\<close>.  It writes
  \<^verbatim>\<open>rare_branch_exp\<close>, which is passed and returned.
\<close>

record rb_env =
  map_size :: nat
  hit_bits :: "u64 list"
  blacklist :: "int list"
  max_rare_branches :: nat

definition INT_MAX :: int where
  "INT_MAX = 2147483647"

text \<open>
  The scan of \<^verbatim>\<open>get_lowest_hit_branch_ids\<close>.  The state is
  (\<^verbatim>\<open>rare_branch_exp\<close>, \<^verbatim>\<open>lowest_hob\<close>, the entries \<^verbatim>\<open>rare_branch_ids[0 .. ret_list_size - 1]\<close>).
  The loop runs while \<^verbatim>\<open>i < map_size && ret_list_size < max_rare_branches - 1\<close>.
\<close>

function lowest_scan :: "rb_env \<Rightarrow> nat \<Rightarrow> int \<times> int \<times> int list \<Rightarrow> int \<times> int \<times> int list" where
  "lowest_scan e i st =
     (case st of (rare_branch_exp, lowest_hob, ids) \<Rightarrow>
        if i < map_size e \<and> length ids < max_rare_branches e - 1 then
          (if hit_bits e ! i > 0 then
             (if contains_id (int i) (blacklist e) then lowest_scan e (i + 1) st
              else
                (let highest_order_bit = hob_loop (unat (hit_bits e ! i)) 0;
                     lowest_hob' = (if highest_order_bit < lowest_hob then highest_order_bit
                                    else lowest_hob)
                 in if highest_order_bit < rare_branch_exp then
                      (if highest_order_bit < rare_branch_exp - 1
                       then lowest_scan e (i + 1) (highest_order_bit + 1, lowest_hob', [int i])
                       else lowest_scan e (i + 1) (rare_branch_exp, lowest_hob', ids @ [int i]))
                    else lowest_scan e (i + 1) (rare_branch_exp, lowest_hob', ids)))
           else lowest_scan e (i + 1) st)
        else st)"
  by pat_completeness auto
termination
  by (relation "measure (\<lambda>(e, i, st). map_size e - i)") auto

text \<open>
  \<^verbatim>\<open>get_lowest_hit_branch_ids\<close>: an empty result with some branch seen raises
  \<^verbatim>\<open>rare_branch_exp\<close> to \<^verbatim>\<open>lowest_hob + 1\<close> and calls the function again.  The result is
  the new \<^verbatim>\<open>rare_branch_exp\<close> and the entries before the terminator.
\<close>

partial_function (option) get_lowest_hit_branch_ids :: "rb_env \<Rightarrow> int \<Rightarrow> (int \<times> int list) option" where
  "get_lowest_hit_branch_ids e rare_branch_exp =
     (case lowest_scan e 0 (rare_branch_exp, INT_MAX, []) of
        (rare_branch_exp', lowest_hob, ids) \<Rightarrow>
          if ids = [] \<and> lowest_hob \<noteq> INT_MAX
          then get_lowest_hit_branch_ids e (lowest_hob + 1)
          else Some (rare_branch_exp', ids))"

declare get_lowest_hit_branch_ids.simps [code]

text \<open>
  \<^verbatim>\<open>branch_ids\<close> and \<^verbatim>\<open>branch_cts\<close> are \<^verbatim>\<open>u32\<close> arrays from \<^verbatim>\<open>ck_alloc\<close> (zeroed).  The
  code shifts them with \<^verbatim>\<open>memmove(branch_cts + j + 1, branch_cts + j, min_hit_index - j)\<close>,
  whose length is a number of bytes, so the arrays are kept as their bytes; entry \<open>k\<close> is
  the four bytes at offset \<open>4 * k\<close>.
\<close>

definition rd32 :: "u8 list \<Rightarrow> nat \<Rightarrow> u32" where
  "rd32 mem k = load32 mem (4 * k)"

definition wr32 :: "u8 list \<Rightarrow> nat \<Rightarrow> u32 \<Rightarrow> u8 list" where
  "wr32 mem k v = buf_write mem (4 * k) (bytes32 v)"

text \<open>
  The insertion loop \<^verbatim>\<open>for (j = 0; j < min_hit_index; j++)\<close> of \<^verbatim>\<open>is_rb_hit_mini\<close>; \<open>h\<close>
  is \<^verbatim>\<open>afl->hit_bits[cur_index]\<close>.  The loop has no \<^verbatim>\<open>break\<close>.
\<close>

function rb_insert_loop ::
  "u64 \<Rightarrow> nat \<Rightarrow> nat \<Rightarrow> nat \<Rightarrow> u8 list \<times> u8 list \<Rightarrow> u8 list \<times> u8 list" where
  "rb_insert_loop h cur_index min_hit_index j arrs =
     (case arrs of (branch_cts, branch_ids) \<Rightarrow>
        if j < min_hit_index then
          (if h \<le> ucast (rd32 branch_cts j) then
             (let cts1 = buf_move branch_cts (4 * (j + 1)) (4 * j) (min_hit_index - j);
                  ids1 = buf_move branch_ids (4 * (j + 1)) (4 * j) (min_hit_index - j)
              in rb_insert_loop h cur_index min_hit_index (j + 1)
                   (wr32 cts1 j (ucast h), wr32 ids1 j (of_nat (cur_index + 1))))
           else rb_insert_loop h cur_index min_hit_index (j + 1) arrs)
        else arrs)"
  by pat_completeness auto
termination
  by (relation "measure (\<lambda>(h, cur_index, min_hit_index, j, arrs). min_hit_index - j)") auto

text \<open>
  The scan of \<^verbatim>\<open>is_rb_hit_mini\<close> over the branches \<^verbatim>\<open>i < map_size\<close> whose bit is set in
  \<^verbatim>\<open>trace_bits_mini\<close>.  After the insertion loop \<open>j\<close> equals \<^verbatim>\<open>min_hit_index\<close>, so the
  "append at end" block always runs.
\<close>

definition trace_bit :: "u8 list \<Rightarrow> nat \<Rightarrow> bool" where
  "trace_bit trace_bits_mini i = ((trace_bits_mini ! (i div 8)) AND (push_bit (i mod 8) 1) \<noteq> 0)"

function rb_hit_scan ::
  "rb_env \<Rightarrow> u8 list \<Rightarrow> int list \<Rightarrow> nat \<Rightarrow> nat \<times> u8 list \<times> u8 list \<Rightarrow> nat \<times> u8 list \<times> u8 list" where
  "rb_hit_scan e trace_bits_mini rarest_branches i st =
     (case st of (min_hit_index, branch_cts, branch_ids) \<Rightarrow>
        if i < map_size e then
          (if trace_bit trace_bits_mini i \<and> contains_id (int i) rarest_branches then
             (let h = hit_bits e ! i;
                  arrs0 = (if min_hit_index = 0
                           then (wr32 branch_cts 0 (ucast h), wr32 branch_ids 0 (of_nat (i + 1)))
                           else (branch_cts, branch_ids));
                  arrs1 = rb_insert_loop h i min_hit_index 0 arrs0;
                  cts2 = wr32 (fst arrs1) min_hit_index (ucast h);
                  ids2 = wr32 (snd arrs1) min_hit_index (of_nat (i + 1))
              in rb_hit_scan e trace_bits_mini rarest_branches (i + 1) (min_hit_index + 1, cts2, ids2))
           else rb_hit_scan e trace_bits_mini rarest_branches (i + 1) st)
        else st)"
  by pat_completeness auto
termination
  by (relation "measure (\<lambda>(e, t, r, i, st). map_size e - i)") auto

text \<open>
  A zero-terminated \<^verbatim>\<open>u32\<close> array as the list of its entries before the first 0.
\<close>

definition zero_terminated :: "u8 list \<Rightarrow> nat \<Rightarrow> u32 list" where
  "zero_terminated mem n = takeWhile (\<lambda>v. v \<noteq> 0) (map (rd32 mem) [0..<n])"

text \<open>
  \<^verbatim>\<open>is_rb_hit_mini\<close>: the new \<^verbatim>\<open>rare_branch_exp\<close> and the returned array, \<open>None\<close> for
  \<^verbatim>\<open>NULL\<close>; every entry is a branch id plus one.  The outer \<open>option\<close> is \<open>None\<close> when the
  call does not return.
\<close>

definition is_rb_hit_mini :: "rb_env \<Rightarrow> int \<Rightarrow> u8 list \<Rightarrow> (int \<times> u32 list option) option" where
  "is_rb_hit_mini e rare_branch_exp trace_bits_mini =
     (case get_lowest_hit_branch_ids e rare_branch_exp of
        None \<Rightarrow> None
      | Some (rare_branch_exp', rarest_branches) \<Rightarrow>
          (let zeros = replicate (4 * max_rare_branches e) 0;
               st = rb_hit_scan e trace_bits_mini rarest_branches 0 (0, zeros, zeros)
           in case st of (min_hit_index, branch_cts, branch_ids) \<Rightarrow>
                if min_hit_index = 0 then Some (rare_branch_exp', None)
                else Some (rare_branch_exp',
                       Some (zero_terminated (wr32 branch_ids min_hit_index 0) (max_rare_branches e)))))"

declare hob_loop.simps [simp del] lowest_scan.simps [simp del] rb_insert_loop.simps [simp del]
  rb_hit_scan.simps [simp del]


section \<open>Position queries under the branch mask\<close>

text \<open>
  \<^verbatim>\<open>rand_below\<close> is declared outside this file.  The draws of one havoc iteration are a
  parameter: \<open>rnd k m\<close> is the value of the \<open>k\<close>-th call, made with limit \<open>m\<close>; the model
  threads the number \<open>k\<close> of calls made so far.
\<close>

type_synonym rng = "nat \<Rightarrow> nat \<Rightarrow> nat"

definition NO_POSITION :: nat where
  "NO_POSITION = 4294967295"

text \<open>The value of an expression computed in \<^verbatim>\<open>u32\<close>.\<close>

definition u32_wrap :: "int \<Rightarrow> nat" where
  "u32_wrap x = nat (x mod 4294967296)"

text \<open>
  \<^verbatim>\<open>for (u32 j = start; j < bound; j++) position_map[position_map_len++] = j;\<close>
  The map is the list of the entries written so far; \<open>cap\<close> is the number of entries
  allocated for it.
\<close>

function fill_positions :: "nat \<Rightarrow> nat \<Rightarrow> nat \<Rightarrow> nat list \<Rightarrow> fault + nat list" where
  "fill_positions cap j bound position_map =
     (if j < bound then
        (if length position_map < cap
         then fill_positions cap (j + 1) bound (position_map @ [j])
         else Inl Position_Map_Overflow)
      else Inr position_map)"
  by pat_completeness auto
termination
  by (relation "measure (\<lambda>(cap, j, bound, position_map). bound - j)") auto

text \<open>
  The scan \<^verbatim>\<open>for (u32 i = 0; i < map_len; i++)\<close> of \<^verbatim>\<open>get_random_modifiable_posn\<close>, with
  the state (\<^verbatim>\<open>position_map\<close>, \<^verbatim>\<open>prev_start_of_1_block\<close>, \<^verbatim>\<open>in_0_block\<close>).  The bound
  \<^verbatim>\<open>i-num_bytes + 1\<close> is computed in \<^verbatim>\<open>u32\<close>, since \<open>i\<close> is a \<^verbatim>\<open>u32\<close>.
\<close>

function posn_scan ::
  "nat \<Rightarrow> u8 \<Rightarrow> nat \<Rightarrow> u8 list \<Rightarrow> nat \<Rightarrow> nat \<Rightarrow> nat list \<times> int \<times> bool \<Rightarrow>
     fault + (nat list \<times> int \<times> bool)" where
  "posn_scan num_to_modify mod_typ map_len branch_mask cap i st =
     (case st of (position_map, prev_start_of_1_block, in_0_block) \<Rightarrow>
        if i < map_len then
          (if (branch_mask ! i) AND mod_typ \<noteq> 0 then
             posn_scan num_to_modify mod_typ map_len branch_mask cap (i + 1)
               (if in_0_block then (position_map, int i, False) else st)
           else if \<not> in_0_block \<and> prev_start_of_1_block \<noteq> - 1 then
             (let num_bytes = max (num_to_modify div 8) 1
              in case fill_positions cap (u32_wrap prev_start_of_1_block)
                        (u32_wrap (int i - int num_bytes + 1)) position_map of
                   Inl f \<Rightarrow> Inl f
                 | Inr position_map' \<Rightarrow>
                     posn_scan num_to_modify mod_typ map_len branch_mask cap (i + 1)
                       (position_map', prev_start_of_1_block, True))
           else posn_scan num_to_modify mod_typ map_len branch_mask cap (i + 1)
                  (position_map, prev_start_of_1_block, True))
        else Inr st)"
  by pat_completeness auto
termination
  by (relation "measure (\<lambda>(n, m, map_len, bm, cap, i, st). map_len - i)") auto

text \<open>
  \<^verbatim>\<open>get_random_modifiable_posn(afl, num_to_modify, mod_type, map_len, branch_mask, position_map)\<close>.
  The result is the returned \<^verbatim>\<open>u32\<close> (\<open>NO_POSITION\<close> is \<^verbatim>\<open>0xffffffff\<close>) and the number of
  draws made so far.
\<close>

definition get_random_modifiable_posn ::
  "rng \<Rightarrow> nat \<Rightarrow> nat \<Rightarrow> u8 \<Rightarrow> nat \<Rightarrow> u8 list \<Rightarrow> nat \<Rightarrow> fault + (nat \<times> nat)" where
  "get_random_modifiable_posn rnd k num_to_modify mod_typ map_len branch_mask cap =
     (case posn_scan num_to_modify mod_typ map_len branch_mask cap 0 ([], - 1, True) of
        Inl f \<Rightarrow> Inl f
      | Inr (position_map, prev_start_of_1_block, in_0_block) \<Rightarrow>
          (case (if \<not> in_0_block
                 then (let num_bytes = max (num_to_modify div 8) 1
                       in fill_positions cap (u32_wrap prev_start_of_1_block)
                            (u32_wrap (int map_len - int num_bytes + 1)) position_map)
                 else Inr position_map) of
             Inl f \<Rightarrow> Inl f
           | Inr position_map' \<Rightarrow>
               if length position_map' \<noteq> 0 then
                 (let random_pos = rnd k (length position_map')
                  in if num_to_modify \<ge> 8 then Inr (position_map' ! random_pos, k + 1)
                     else Inr (u32_wrap (int (position_map' ! random_pos + rnd (k + 1) 8)), k + 2))
               else Inr (NO_POSITION, k)))"

section \<open>The fine-grained havoc operators and their restore\<close>

text \<open>
  \<^verbatim>\<open>FLIP_BIT(_ar, _b)\<close>: \<^verbatim>\<open>_arf[(_bf) >> 3] ^= (128 >> ((_bf) & 7))\<close>.
\<close>

definition FLIP_BIT :: "u8 list \<Rightarrow> nat \<Rightarrow> fault + u8 list" where
  "FLIP_BIT ar b =
     (if b div 8 < length ar
      then Inr (ar[b div 8 := (ar ! (b div 8)) XOR drop_bit (b mod 8) 128])
      else Inl Buffer_Overflow)"

text \<open>
  The byte swaps \<^verbatim>\<open>SWAP16\<close> and \<^verbatim>\<open>SWAP32\<close>, the tables \<^verbatim>\<open>interesting_8\<close>, \<^verbatim>\<open>interesting_16\<close>,
  \<^verbatim>\<open>interesting_32\<close> and the constants \<^verbatim>\<open>ARITH_MAX\<close> and \<^verbatim>\<open>MIN_LEN_FOR_OPTIMIZED_RESTORE\<close>
  are declared outside this file; the tables and constants are parameters.
\<close>

definition SWAP16 :: "u16 \<Rightarrow> u16" where
  "SWAP16 x = push_bit 8 x OR drop_bit 8 x"

definition SWAP32 :: "u32 \<Rightarrow> u32" where
  "SWAP32 x =
     push_bit 24 x OR drop_bit 24 x OR (push_bit 8 x AND 0x00FF0000) OR (drop_bit 8 x AND 0x0000FF00)"

record havoc_consts =
  interesting_8 :: "u8 list"
  interesting_16 :: "u16 list"
  interesting_32 :: "u32 list"
  ARITH_MAX :: nat
  MIN_LEN_FOR_OPTIMIZED_RESTORE :: nat

text \<open>
  The operators of \<^verbatim>\<open>switch (r)\<close> for \<open>r\<close> from 0 to 43, in the order of the cases, and
  the value each assigns to \<^verbatim>\<open>mutation_size\<close>.
\<close>

datatype fine_op =
    FLIP_BIT1 | INTERESTING8 | INTERESTING16 | INTERESTING16BE | INTERESTING32 | INTERESTING32BE
  | ARITH8_MINUS | ARITH8_PLUS | ARITH16_MINUS | ARITH16_BE_MINUS | ARITH16_PLUS | ARITH16_BE_PLUS
  | ARITH32_MINUS | ARITH32_BE_MINUS | ARITH32_PLUS | ARITH32_BE_PLUS | RAND8

datatype MutationByteSize = OTHER | BIT1 | BYTE1 | BYTE2 | BYTE4

fun mutation_size_of :: "fine_op \<Rightarrow> MutationByteSize" where
  "mutation_size_of FLIP_BIT1 = BIT1"
| "mutation_size_of INTERESTING8 = BYTE1"
| "mutation_size_of INTERESTING16 = BYTE2"
| "mutation_size_of INTERESTING16BE = BYTE2"
| "mutation_size_of INTERESTING32 = BYTE4"
| "mutation_size_of INTERESTING32BE = BYTE4"
| "mutation_size_of ARITH8_MINUS = BYTE1"
| "mutation_size_of ARITH8_PLUS = BYTE1"
| "mutation_size_of ARITH16_MINUS = BYTE2"
| "mutation_size_of ARITH16_BE_MINUS = BYTE2"
| "mutation_size_of ARITH16_PLUS = BYTE2"
| "mutation_size_of ARITH16_BE_PLUS = BYTE2"
| "mutation_size_of ARITH32_MINUS = BYTE4"
| "mutation_size_of ARITH32_BE_MINUS = BYTE4"
| "mutation_size_of ARITH32_PLUS = BYTE4"
| "mutation_size_of ARITH32_BE_PLUS = BYTE4"
| "mutation_size_of RAND8 = BYTE1"

text \<open>
  The first argument each operator gives to \<^verbatim>\<open>get_random_modifiable_posn\<close>
  (\<^verbatim>\<open>RAND8\<close> passes 32), and the length below which the case breaks before its loop
  (\<^verbatim>\<open>if (temp_len < 2) { break; }\<close>).
\<close>

fun num_to_modify_of :: "fine_op \<Rightarrow> nat" where
  "num_to_modify_of FLIP_BIT1 = 1"
| "num_to_modify_of RAND8 = 32"
| "num_to_modify_of op =
     (case mutation_size_of op of BYTE1 \<Rightarrow> 8 | BYTE2 \<Rightarrow> 16 | BYTE4 \<Rightarrow> 32 | _ \<Rightarrow> 0)"

definition min_len_of :: "MutationByteSize \<Rightarrow> nat" where
  "min_len_of sz = (case sz of BYTE2 \<Rightarrow> 2 | BYTE4 \<Rightarrow> 4 | _ \<Rightarrow> 0)"

text \<open>
  The value an operator writes over the old one; \<open>d\<close> is the draw made for it.
\<close>

fun new8 :: "havoc_consts \<Rightarrow> fine_op \<Rightarrow> (nat \<Rightarrow> nat) \<Rightarrow> u8 \<Rightarrow> u8" where
  "new8 c INTERESTING8 d old = interesting_8 c ! d (length (interesting_8 c))"
| "new8 c ARITH8_MINUS d old = old - (1 + of_nat (d (ARITH_MAX c)))"
| "new8 c ARITH8_PLUS d old = old + (1 + of_nat (d (ARITH_MAX c)))"
| "new8 c RAND8 d old = old XOR (1 + of_nat (d 255))"
| "new8 c op d old = old"

fun new16 :: "havoc_consts \<Rightarrow> fine_op \<Rightarrow> (nat \<Rightarrow> nat) \<Rightarrow> u16 \<Rightarrow> u16" where
  "new16 c INTERESTING16 d old = interesting_16 c ! d (length (interesting_16 c))"
| "new16 c INTERESTING16BE d old = SWAP16 (interesting_16 c ! d (length (interesting_16 c)))"
| "new16 c ARITH16_MINUS d old = old - (1 + of_nat (d (ARITH_MAX c)))"
| "new16 c ARITH16_BE_MINUS d old = SWAP16 (SWAP16 old - (1 + of_nat (d (ARITH_MAX c))))"
| "new16 c ARITH16_PLUS d old = old + (1 + of_nat (d (ARITH_MAX c)))"
| "new16 c ARITH16_BE_PLUS d old = SWAP16 (SWAP16 old + (1 + of_nat (d (ARITH_MAX c))))"
| "new16 c op d old = old"

fun new32 :: "havoc_consts \<Rightarrow> fine_op \<Rightarrow> (nat \<Rightarrow> nat) \<Rightarrow> u32 \<Rightarrow> u32" where
  "new32 c INTERESTING32 d old = interesting_32 c ! d (length (interesting_32 c))"
| "new32 c INTERESTING32BE d old = SWAP32 (interesting_32 c ! d (length (interesting_32 c)))"
| "new32 c ARITH32_MINUS d old = old - (1 + of_nat (d (ARITH_MAX c)))"
| "new32 c ARITH32_BE_MINUS d old = SWAP32 (SWAP32 old - (1 + of_nat (d (ARITH_MAX c))))"
| "new32 c ARITH32_PLUS d old = old + (1 + of_nat (d (ARITH_MAX c)))"
| "new32 c ARITH32_BE_PLUS d old = SWAP32 (SWAP32 old + (1 + of_nat (d (ARITH_MAX c))))"
| "new32 c op d old = old"

text \<open>
  One sub-application at the position \<open>pos\<close>, as sub-application number \<open>i\<close>: the old value
  is saved in \<^verbatim>\<open>mutation_data8[i]\<close>, \<^verbatim>\<open>mutation_data16[i]\<close> or \<^verbatim>\<open>mutation_data32[i]\<close> (three
  views of the one array \<^verbatim>\<open>mutation_data32\<close>, kept here as its 2048 bytes) and the new one
  is written.  The result is \<^verbatim>\<open>out_buf\<close>, the data array and the number of draws.
\<close>

definition fine_apply ::
  "havoc_consts \<Rightarrow> rng \<Rightarrow> nat \<Rightarrow> fine_op \<Rightarrow> nat \<Rightarrow> nat \<Rightarrow> u8 list \<times> u8 list \<Rightarrow>
     fault + (u8 list \<times> u8 list \<times> nat)" where
  "fine_apply c rnd k op pos i bufs =
     (case bufs of (out_buf, mutation_data) \<Rightarrow>
        (case mutation_size_of op of
           BIT1 \<Rightarrow> map_sum id (\<lambda>ob. (ob, mutation_data, k)) (FLIP_BIT out_buf pos)
         | BYTE1 \<Rightarrow>
             map_sum id (\<lambda>ob. (ob, buf_write mutation_data i [out_buf ! pos], k + 1))
               (store out_buf pos [new8 c op (rnd k) (out_buf ! pos)])
         | BYTE2 \<Rightarrow>
             map_sum id (\<lambda>ob. (ob, buf_write mutation_data (2 * i) (bytes16 (load16 out_buf pos)), k + 1))
               (store out_buf pos (bytes16 (new16 c op (rnd k) (load16 out_buf pos))))
         | BYTE4 \<Rightarrow>
             map_sum id (\<lambda>ob. (ob, buf_write mutation_data (4 * i) (bytes32 (load32 out_buf pos)), k + 1))
               (store out_buf pos (bytes32 (new32 c op (rnd k) (load32 out_buf pos))))
         | OTHER \<Rightarrow> Inr (out_buf, mutation_data, k)))"

text \<open>
  The loop \<^verbatim>\<open>for (i = 0; i < use_stacking; ++i)\<close> of a fine-grained case.  The state is
  (\<^verbatim>\<open>out_buf\<close>, \<^verbatim>\<open>mutation_pos\<close>, the data array, the number of draws).  A query answering
  \<^verbatim>\<open>0xffffffff\<close> breaks the loop.  \<^verbatim>\<open>mutation_pos\<close> has 512 entries and \<^verbatim>\<open>position_map\<close> was
  allocated for \<^verbatim>\<open>temp_len + 1\<close> entries.
\<close>

type_synonym fine_state = "u8 list \<times> nat list \<times> u8 list \<times> nat"

function havoc_fine_loop ::
  "havoc_consts \<Rightarrow> rng \<Rightarrow> fine_op \<Rightarrow> u8 list \<Rightarrow> nat \<Rightarrow> nat \<Rightarrow> nat \<Rightarrow> fine_state \<Rightarrow>
     fault + fine_state" where
  "havoc_fine_loop c rnd op branch_mask temp_len use_stacking i st =
     (case st of (out_buf, mutation_pos, mutation_data, k) \<Rightarrow>
        if i < use_stacking then
          (case get_random_modifiable_posn rnd k (num_to_modify_of op) 1 temp_len branch_mask
                  (temp_len + 1) of
             Inl f \<Rightarrow> Inl f
           | Inr (pos, k1) \<Rightarrow>
               if pos = NO_POSITION then Inr (out_buf, mutation_pos, mutation_data, k1)
               else if i \<ge> 512 then Inl Buffer_Overflow
               else
                 (case fine_apply c rnd k1 op pos i (out_buf, mutation_data) of
                    Inl f \<Rightarrow> Inl f
                  | Inr (out_buf', mutation_data', k2) \<Rightarrow>
                      havoc_fine_loop c rnd op branch_mask temp_len use_stacking (i + 1)
                        (out_buf', mutation_pos[i := pos], mutation_data', k2)))
        else Inr st)"
  by pat_completeness auto
termination
  by (relation "measure (\<lambda>(c, rnd, op, bm, temp_len, use_stacking, i, st). use_stacking - i)") auto

text \<open>
  The restore loops \<^verbatim>\<open>for (j = use_stacking - 1; j >= 0; j--)\<close>: one step for the entry
  \<open>j\<close>, and the loop from \<open>n - 1\<close> down to 0.
\<close>

definition restore_one ::
  "MutationByteSize \<Rightarrow> nat list \<Rightarrow> u8 list \<Rightarrow> nat \<Rightarrow> u8 list \<Rightarrow> fault + u8 list" where
  "restore_one sz mutation_pos mutation_data j out_buf =
     (if j \<ge> 512 then Inl Buffer_Overflow
      else
        (case sz of
           BIT1 \<Rightarrow> FLIP_BIT out_buf (mutation_pos ! j)
         | BYTE1 \<Rightarrow> store out_buf (mutation_pos ! j) [mutation_data ! j]
         | BYTE2 \<Rightarrow> store out_buf (mutation_pos ! j) (take 2 (drop (2 * j) mutation_data))
         | BYTE4 \<Rightarrow> store out_buf (mutation_pos ! j) (take 4 (drop (4 * j) mutation_data))
         | OTHER \<Rightarrow> Inr out_buf))"

fun restore_loop ::
  "MutationByteSize \<Rightarrow> nat list \<Rightarrow> u8 list \<Rightarrow> nat \<Rightarrow> u8 list \<Rightarrow> fault + u8 list" where
  "restore_loop sz mutation_pos mutation_data 0 out_buf = Inr out_buf"
| "restore_loop sz mutation_pos mutation_data (Suc j) out_buf =
     (case restore_one sz mutation_pos mutation_data j out_buf of
        Inl f \<Rightarrow> Inl f
      | Inr out_buf' \<Rightarrow> restore_loop sz mutation_pos mutation_data j out_buf')"

text \<open>
  One havoc iteration with a fine-grained operator and no custom mutator: the case of
  \<^verbatim>\<open>switch (r)\<close>, \<^verbatim>\<open>common_fuzz_stuff\<close> (the parameter \<open>should_abandon\<close>), and the restore
  phase.  At the start of the iteration \<^verbatim>\<open>temp_len\<close> equals \<^verbatim>\<open>len\<close> and \<^verbatim>\<open>out_buf\<close> holds
  \<^verbatim>\<open>len\<close> bytes.  \<^verbatim>\<open>mutation_pos\<close> and \<^verbatim>\<open>mutation_data32\<close> are declared in the loop body
  without an initialiser; what they hold at first is the parameters \<open>stale_pos\<close> (512
  entries) and \<open>stale_data\<close> (2048 bytes).  The result is \<^verbatim>\<open>out_buf\<close> after the restore
  phase, or \<open>Abandoned\<close> for \<^verbatim>\<open>goto abandon_entry\<close>.
\<close>

definition havoc_fine_iteration ::
  "havoc_consts \<Rightarrow> rng \<Rightarrow> (u8 list \<Rightarrow> bool) \<Rightarrow> fine_op \<Rightarrow> u8 list \<Rightarrow> u8 list \<Rightarrow> nat \<Rightarrow> nat \<Rightarrow>
     nat list \<Rightarrow> u8 list \<Rightarrow> u8 list \<Rightarrow> fault + u8 list staged" where
  "havoc_fine_iteration c rnd should_abandon op branch_mask in_buf len use_stacking
       stale_pos stale_data out_buf =
     (let temp_len = len;
          sz = mutation_size_of op
      in case (if temp_len < min_len_of sz then Inr (out_buf, stale_pos, stale_data, 0)
               else havoc_fine_loop c rnd op branch_mask temp_len use_stacking 0
                      (out_buf, stale_pos, stale_data, 0)) of
           Inl f \<Rightarrow> Inl f
         | Inr (out_buf1, mutation_pos, mutation_data, k) \<Rightarrow>
             if should_abandon (take temp_len out_buf1) then Inr Abandoned
             else if len \<ge> MIN_LEN_FOR_OPTIMIZED_RESTORE c then
               (if temp_len < min_len_of sz then Inr (Completed out_buf1)
                else map_sum id Completed
                       (restore_loop sz mutation_pos mutation_data use_stacking out_buf1))
             else Inr (Completed (take len in_buf)))"

declare fill_positions.simps [simp del] posn_scan.simps [simp del] havoc_fine_loop.simps [simp del]


section \<open>Arithmetic in \<^verbatim>\<open>double\<close>\<close>

text \<open>
  The bandits compute weights, losses, sample means and scores in \<^verbatim>\<open>double\<close>.  What C's
  operators do on \<^verbatim>\<open>double\<close>, and what \<^verbatim>\<open>sqrt\<close>, \<^verbatim>\<open>log\<close>, \<^verbatim>\<open>exp\<close> and \<^verbatim>\<open>pow\<close> of the C
  library return, is fixed outside this file; the macros \<^verbatim>\<open>MIN\<close> and \<^verbatim>\<open>MAX\<close> and the constant
  \<^verbatim>\<open>INFINITY\<close> are defined outside it as well.  They are the fields of a record, and the
  bandit functions below are given for every such arithmetic over any type \<open>'d\<close> of values:
  no rounding, infinity or NaN is left out.  \<open>d_of_int\<close> converts an integer value (also an
  integer literal used as a \<^verbatim>\<open>double\<close>), \<open>d_to_int\<close> is the cast \<^verbatim>\<open>(int)\<close>.
\<close>

record 'd double_ops =
  d_plus :: "'d \<Rightarrow> 'd \<Rightarrow> 'd"
  d_minus :: "'d \<Rightarrow> 'd \<Rightarrow> 'd"
  d_times :: "'d \<Rightarrow> 'd \<Rightarrow> 'd"
  d_divide :: "'d \<Rightarrow> 'd \<Rightarrow> 'd"
  d_uminus :: "'d \<Rightarrow> 'd"
  d_less :: "'d \<Rightarrow> 'd \<Rightarrow> bool"
  d_less_eq :: "'d \<Rightarrow> 'd \<Rightarrow> bool"
  d_of_int :: "int \<Rightarrow> 'd"
  d_to_int :: "'d \<Rightarrow> int"
  d_INFINITY :: 'd
  d_MIN :: "'d \<Rightarrow> 'd \<Rightarrow> 'd"
  d_MAX :: "'d \<Rightarrow> 'd \<Rightarrow> 'd"
  d_sqrt :: "'d \<Rightarrow> 'd"
  d_log :: "'d \<Rightarrow> 'd"
  d_exp :: "'d \<Rightarrow> 'd"
  d_pow :: "'d \<Rightarrow> 'd \<Rightarrow> 'd"

subsection \<open>IEEE 754 arithmetic\<close>

text \<open>
  An arithmetic to run the functions on: the values of an IEEE 754 format, a finite value
  (a real number), the two infinities and NaN.  The two zeros are one value here, which
  stands for \<open>+0\<close>.  An operation on finite values takes the exact result and rounds it
  with \<open>rd\<close>; on the other values it follows IEEE 754 and Annex F of the C standard.
  \<open>rd\<close> is \<open>b64_of_real\<close> for binary64 and \<open>Fin\<close> for an arithmetic without rounding.
\<close>

datatype double = Fin real | PInf | NInf | NaN


fun is_neg :: "double \<Rightarrow> bool" where
  "is_neg (Fin x) = (x < 0)"
| "is_neg NInf = True"
| "is_neg d = False"

fun ieee_uminus :: "double \<Rightarrow> double" where
  "ieee_uminus (Fin x) = Fin (- x)"
| "ieee_uminus PInf = NInf"
| "ieee_uminus NInf = PInf"
| "ieee_uminus NaN = NaN"

fun ieee_plus :: "(real \<Rightarrow> double) \<Rightarrow> double \<Rightarrow> double \<Rightarrow> double" where
  "ieee_plus rd (Fin x) (Fin y) = rd (x + y)"
| "ieee_plus rd NaN b = NaN"
| "ieee_plus rd a NaN = NaN"
| "ieee_plus rd PInf NInf = NaN"
| "ieee_plus rd NInf PInf = NaN"
| "ieee_plus rd PInf b = PInf"
| "ieee_plus rd a PInf = PInf"
| "ieee_plus rd NInf b = NInf"
| "ieee_plus rd a NInf = NInf"

definition ieee_minus :: "(real \<Rightarrow> double) \<Rightarrow> double \<Rightarrow> double \<Rightarrow> double" where
  "ieee_minus rd a b = ieee_plus rd a (ieee_uminus b)"

text \<open>An infinity times zero is NaN; else the sign of a product or quotient is the product of the signs.\<close>

fun ieee_times :: "(real \<Rightarrow> double) \<Rightarrow> double \<Rightarrow> double \<Rightarrow> double" where
  "ieee_times rd (Fin x) (Fin y) = rd (x * y)"
| "ieee_times rd NaN b = NaN"
| "ieee_times rd a NaN = NaN"
| "ieee_times rd a b =
     (if a = Fin 0 \<or> b = Fin 0 then NaN else if is_neg a = is_neg b then PInf else NInf)"

text \<open>
  A finite value divided by zero is an infinity (NaN for \<open>0 / 0\<close>), a finite value divided
  by an infinity is zero, an infinity divided by an infinity is NaN.
\<close>

fun ieee_divide :: "(real \<Rightarrow> double) \<Rightarrow> double \<Rightarrow> double \<Rightarrow> double" where
  "ieee_divide rd (Fin x) (Fin y) =
     (if y \<noteq> 0 then rd (x / y) else if x = 0 then NaN else if 0 < x then PInf else NInf)"
| "ieee_divide rd NaN b = NaN"
| "ieee_divide rd a NaN = NaN"
| "ieee_divide rd (Fin x) b = Fin 0"
| "ieee_divide rd a (Fin y) = (if is_neg a = (y < 0) then PInf else NInf)"
| "ieee_divide rd a b = NaN"

text \<open>A comparison with NaN is false.\<close>

fun ieee_less :: "double \<Rightarrow> double \<Rightarrow> bool" where
  "ieee_less (Fin x) (Fin y) = (x < y)"
| "ieee_less NaN b = False"
| "ieee_less a NaN = False"
| "ieee_less PInf b = False"
| "ieee_less a PInf = True"
| "ieee_less NInf b = (b \<noteq> NInf)"
| "ieee_less a NInf = False"

fun ieee_less_eq :: "double \<Rightarrow> double \<Rightarrow> bool" where
  "ieee_less_eq (Fin x) (Fin y) = (x \<le> y)"
| "ieee_less_eq NaN b = False"
| "ieee_less_eq a NaN = False"
| "ieee_less_eq a PInf = True"
| "ieee_less_eq PInf b = False"
| "ieee_less_eq NInf b = True"
| "ieee_less_eq a NInf = False"

text \<open>
  \<^verbatim>\<open>(int)x\<close> truncates towards zero.  C leaves the cast of an infinity or NaN undefined;
  it is 0 here.
\<close>

fun ieee_to_int :: "double \<Rightarrow> int" where
  "ieee_to_int (Fin x) = (if 0 \<le> x then \<lfloor>x\<rfloor> else \<lceil>x\<rceil>)"
| "ieee_to_int d = 0"

text \<open>
  \<^verbatim>\<open>MIN(a, b)\<close> and \<^verbatim>\<open>MAX(a, b)\<close> in the form \<^verbatim>\<open>a < b ? a : b\<close> and \<^verbatim>\<open>a > b ? a : b\<close>.
\<close>

definition ieee_MIN :: "double \<Rightarrow> double \<Rightarrow> double" where
  "ieee_MIN a b = (if ieee_less a b then a else b)"

definition ieee_MAX :: "double \<Rightarrow> double \<Rightarrow> double" where
  "ieee_MAX a b = (if ieee_less b a then a else b)"

text \<open>
  The functions of the C library, rounded from the exact value (the library may be off in
  the last place).
\<close>

fun ieee_sqrt :: "(real \<Rightarrow> double) \<Rightarrow> double \<Rightarrow> double" where
  "ieee_sqrt rd (Fin x) = (if x < 0 then NaN else rd (sqrt x))"
| "ieee_sqrt rd PInf = PInf"
| "ieee_sqrt rd d = NaN"

fun ieee_log :: "(real \<Rightarrow> double) \<Rightarrow> double \<Rightarrow> double" where
  "ieee_log rd (Fin x) = (if x < 0 then NaN else if x = 0 then NInf else rd (ln x))"
| "ieee_log rd PInf = PInf"
| "ieee_log rd d = NaN"

fun ieee_exp :: "(real \<Rightarrow> double) \<Rightarrow> double \<Rightarrow> double" where
  "ieee_exp rd (Fin x) = rd (exp x)"
| "ieee_exp rd PInf = PInf"
| "ieee_exp rd NInf = Fin 0"
| "ieee_exp rd NaN = NaN"

definition is_integer :: "real \<Rightarrow> bool" where
  "is_integer y \<longleftrightarrow> y = of_int \<lfloor>y\<rfloor>"

fun ieee_pow_cases :: "(real \<Rightarrow> double) \<Rightarrow> double \<Rightarrow> double \<Rightarrow> double" where
  "ieee_pow_cases rd (Fin x) (Fin y) =
     (if 0 < x then rd (x powr y)
      else if x = 0 then (if y < 0 then PInf else Fin 0)
      else if is_integer y then rd ((if odd \<lfloor>y\<rfloor> then - 1 else 1) * (\<bar>x\<bar> powr y))
      else NaN)"
| "ieee_pow_cases rd NaN b = NaN"
| "ieee_pow_cases rd a NaN = NaN"
| "ieee_pow_cases rd (Fin x) PInf = (if \<bar>x\<bar> < 1 then Fin 0 else if \<bar>x\<bar> = 1 then Fin 1 else PInf)"
| "ieee_pow_cases rd (Fin x) NInf = (if \<bar>x\<bar> < 1 then PInf else if \<bar>x\<bar> = 1 then Fin 1 else Fin 0)"
| "ieee_pow_cases rd PInf (Fin y) = (if y < 0 then Fin 0 else PInf)"
| "ieee_pow_cases rd NInf (Fin y) =
     (if y < 0 then Fin 0 else if is_integer y \<and> odd \<lfloor>y\<rfloor> then NInf else PInf)"
| "ieee_pow_cases rd a PInf = PInf"
| "ieee_pow_cases rd a NInf = Fin 0"

text \<open>\<^verbatim>\<open>pow(x, 0)\<close> and \<^verbatim>\<open>pow(1, y)\<close> are 1 for every \<open>x\<close> and \<open>y\<close>, NaN included.\<close>

definition ieee_pow :: "(real \<Rightarrow> double) \<Rightarrow> double \<Rightarrow> double \<Rightarrow> double" where
  "ieee_pow rd a b = (if b = Fin 0 \<or> a = Fin 1 then Fin 1 else ieee_pow_cases rd a b)"

definition ieee :: "(real \<Rightarrow> double) \<Rightarrow> double double_ops" where
  "ieee rd =
     \<lparr>d_plus = ieee_plus rd, d_minus = ieee_minus rd, d_times = ieee_times rd,
      d_divide = ieee_divide rd, d_uminus = ieee_uminus, d_less = ieee_less,
      d_less_eq = ieee_less_eq, d_of_int = (\<lambda>i. rd (of_int i)), d_to_int = ieee_to_int,
      d_INFINITY = PInf, d_MIN = ieee_MIN, d_MAX = ieee_MAX, d_sqrt = ieee_sqrt rd,
      d_log = ieee_log rd, d_exp = ieee_exp rd, d_pow = ieee_pow rd\<rparr>"

subsection \<open>Rounding to binary64\<close>

text \<open>
  Round to nearest, ties to even, with 53 significant bits, gradual underflow below
  \<open>pow2 (- 1022)\<close> and overflow to an infinity from \<open>pow2 1024\<close> on.  \<open>b64_exponent k x\<close>
  looks for the \<open>e\<close> with \<open>pow2 e \<le> x < pow2 (e + 1)\<close> in at most \<open>k\<close> steps.
\<close>

definition pow2 :: "int \<Rightarrow> real" where
  "pow2 e = (if 0 \<le> e then 2 ^ nat e else 1 / 2 ^ nat (- e))"

fun b64_exponent :: "nat \<Rightarrow> real \<Rightarrow> int" where
  "b64_exponent 0 x = 0"
| "b64_exponent (Suc k) x =
     (if 2 \<le> x then b64_exponent k (x / 2) + 1
      else if x < 1 then b64_exponent k (x * 2) - 1
      else 0)"

definition round_half_even :: "real \<Rightarrow> int" where
  "round_half_even y =
     (let f = \<lfloor>y\<rfloor>; d = y - of_int f
      in if d < 1 / 2 then f else if 1 / 2 < d then f + 1 else if even f then f else f + 1)"

definition b64_round :: "real \<Rightarrow> real" where
  "b64_round x =
     (if x = 0 then 0
      else
        (let e = max (b64_exponent 2200 \<bar>x\<bar>) (- 1022);
             q = pow2 (e - 52)
         in of_int (round_half_even (x / q)) * q))"

definition b64_of_real :: "real \<Rightarrow> double" where
  "b64_of_real x =
     (let y = b64_round x
      in if pow2 1024 \<le> y then PInf else if y \<le> - pow2 1024 then NInf else Fin y)"

definition binary64 :: "double double_ops" where
  "binary64 = ieee b64_of_real"

definition exact_arithmetic :: "double double_ops" where
  "exact_arithmetic = ieee Fin"

section \<open>The weight-based bandits Exp3-IX and Exp3-PP\<close>

text \<open>
  The structures \<^verbatim>\<open>expix_t\<close> and \<^verbatim>\<open>exppp_t\<close> are declared outside this file; the records
  have the fields the code uses, named \<open>ix_f\<close> and \<open>pp_f\<close> for the field \<^verbatim>\<open>f\<close>.  Weights,
  losses and trusts are values of the arithmetic \<open>ar\<close>, counters (\<^verbatim>\<open>t\<close>, \<^verbatim>\<open>pulls\<close>) are
  natural numbers.  Arrays are lists that hold at least \<^verbatim>\<open>n_arms\<close> entries.
\<close>

record 'd expix =
  ix_n_arms :: nat
  ix_t :: nat
  ix_weights :: "'d list"
  ix_losses :: "'d list"
  ix_pulls :: "nat list"
  ix_total_rewards :: "int list"


text \<open>
  The scan shared by \<^verbatim>\<open>expix_select_arm\<close> (over the weights) and
  \<^verbatim>\<open>choice_from_distribution\<close> (over the trusts):
  \<^verbatim>\<open>for (i = 0; i < n_arms; i++) { sum_of_possibility += p[i]; if (target < sum_of_possibility) return i; }\<close>.
  \<open>None\<close> is leaving the loop.
\<close>

function scan_distribution ::
  "'d double_ops \<Rightarrow> 'd list \<Rightarrow> nat \<Rightarrow> 'd \<Rightarrow> nat \<Rightarrow> 'd \<Rightarrow> nat option" where
  "scan_distribution ar p n target i sum_of_possibility =
     (if i < n then
        (let s = d_plus ar sum_of_possibility (p ! i)
         in if d_less ar target s then Some i else scan_distribution ar p n target (i + 1) s)
      else None)"
  by pat_completeness auto
termination
  by (relation "measure (\<lambda>(ar, p, n, target, i, s). n - i)") auto

text \<open>
  \<^verbatim>\<open>expix_select_arm(afl, self, mask)\<close>; \<open>target\<close> is the value of
  \<^verbatim>\<open>gsl_rng_uniform(afl->gsl_rng_state)\<close>.  The body never reads \<^verbatim>\<open>mask\<close>.
\<close>

definition expix_select_arm ::
  "'d double_ops \<Rightarrow> 'd \<Rightarrow> 'd expix \<Rightarrow> u8 list option \<Rightarrow> nat \<times> 'd expix" where
  "expix_select_arm ar target self msk =
     (let self1 = self\<lparr>ix_t := ix_t self + 1\<rparr>;
          i = (case scan_distribution ar (ix_weights self1) (ix_n_arms self1) target 0 (d_of_int ar 0) of
                 Some i \<Rightarrow> i
               | None \<Rightarrow> ix_n_arms self1 - 1)
      in (i, self1\<lparr>ix_pulls := (ix_pulls self1)[i := ix_pulls self1 ! i + 1]\<rparr>))"

text \<open>
  The three loops of \<^verbatim>\<open>expix_add_reward\<close>:
  \<^verbatim>\<open>for (i = 0; i < n_arms; i++) min_loss = MIN(min_loss, self->losses[i]);\<close>
\<close>

function expix_min_loop :: "'d double_ops \<Rightarrow> 'd list \<Rightarrow> nat \<Rightarrow> nat \<Rightarrow> 'd \<Rightarrow> 'd" where
  "expix_min_loop ar losses n i min_loss =
     (if i < n then expix_min_loop ar losses n (i + 1) (d_MIN ar min_loss (losses ! i))
      else min_loss)"
  by pat_completeness auto
termination
  by (relation "measure (\<lambda>(ar, losses, n, i, m). n - i)") auto

text \<open>
  \<^verbatim>\<open>for (...) { self->weights[i] = exp(-eta * (self->losses[i] - min_loss)); denom += self->weights[i]; }\<close>
\<close>

function expix_exp_loop ::
  "'d double_ops \<Rightarrow> 'd \<Rightarrow> 'd \<Rightarrow> 'd list \<Rightarrow> nat \<Rightarrow> nat \<Rightarrow> 'd list \<Rightarrow> 'd \<Rightarrow> 'd list \<times> 'd" where
  "expix_exp_loop ar eta min_loss losses n i weights denom =
     (if i < n then
        (let weights' = weights[i := d_exp ar (d_times ar (d_uminus ar eta) (d_minus ar (losses ! i) min_loss))]
         in expix_exp_loop ar eta min_loss losses n (i + 1) weights' (d_plus ar denom (weights' ! i)))
      else (weights, denom))"
  by pat_completeness auto
termination
  by (relation "measure (\<lambda>(ar, eta, m, losses, n, i, w, d). n - i)") auto

text \<open>\<^verbatim>\<open>for (...) self->weights[i] /= denom;\<close>\<close>

function expix_div_loop :: "'d double_ops \<Rightarrow> 'd \<Rightarrow> nat \<Rightarrow> nat \<Rightarrow> 'd list \<Rightarrow> 'd list" where
  "expix_div_loop ar denom n i weights =
     (if i < n then expix_div_loop ar denom n (i + 1) (weights[i := d_divide ar (weights ! i) denom])
      else weights)"
  by pat_completeness auto
termination
  by (relation "measure (\<lambda>(ar, denom, n, i, w). n - i)") auto

text \<open>
  \<^verbatim>\<open>expix_add_reward(self, arm, reward)\<close>, statement by statement.  The literals \<^verbatim>\<open>2\<close>,
  \<^verbatim>\<open>1.0\<close> and \<^verbatim>\<open>0\<close> and the counters \<^verbatim>\<open>n_arms\<close> and \<^verbatim>\<open>t\<close> enter the arithmetic by
  \<open>d_of_int\<close>.
\<close>

definition expix_add_reward :: "'d double_ops \<Rightarrow> 'd expix \<Rightarrow> nat \<Rightarrow> 'd \<Rightarrow> 'd expix" where
  "expix_add_reward ar self arm reward =
     (let n = ix_n_arms self;
          total_rewards' = (ix_total_rewards self)[arm := ix_total_rewards self ! arm + d_to_int ar reward];
          eta = d_sqrt ar (d_divide ar (d_divide ar
                  (d_times ar (d_of_int ar 2) (d_log ar (d_of_int ar (int n))))
                  (d_of_int ar (int n))) (d_of_int ar (int (ix_t self))));
          gamma = d_divide ar eta (d_of_int ar 2);
          loss = d_minus ar (d_of_int ar 1) reward;
          loss' = d_divide ar loss (d_plus ar (ix_weights self ! arm) gamma);
          losses' = (ix_losses self)[arm := d_plus ar (ix_losses self ! arm) loss'];
          min_loss = expix_min_loop ar losses' n 0 (d_INFINITY ar);
          wd = expix_exp_loop ar eta min_loss losses' n 0 (ix_weights self) (d_of_int ar 0)
      in self\<lparr>ix_total_rewards := total_rewards', ix_losses := losses',
              ix_weights := expix_div_loop ar (snd wd) n 0 (fst wd)\<rparr>)"



section \<open>The bandit protocol of one havoc iteration\<close>

text \<open>
  The macros \<^verbatim>\<open>SELECT_ARM\<close>, \<^verbatim>\<open>ADD_REWARD\<close>, \<^verbatim>\<open>MUT_ALG\<close>, \<^verbatim>\<open>BATCH_ALG\<close> and the switches
  \<^verbatim>\<open>MOPTWISE_BANDIT\<close>, \<^verbatim>\<open>ATOMIZE_CASES\<close>, \<^verbatim>\<open>BATCHSIZE_BANDIT\<close>, \<^verbatim>\<open>BATCH_NUM_ARM\<close> are defined
  outside this file.  The model is the build with \<^verbatim>\<open>MOPTWISE_BANDIT\<close> and \<^verbatim>\<open>ATOMIZE_CASES\<close>
  (the operator of an iteration is the arm \<^verbatim>\<open>selected_case\<close> of the operator-selector
  bandit, and \<^verbatim>\<open>case_idx\<close> equals it, else the code stops with \<^verbatim>\<open>FATAL\<close>).  The selector
  and reward functions of the two bandits are parameters, over any types \<open>'m\<close> and \<open>'b\<close> of
  bandit instances; \<open>MUT_ALG_exp\<close> says whether the blocks under
  \<^verbatim>\<open>#if MUT_ALG == exppp || MUT_ALG == expix\<close> are compiled.
\<close>

record ('m, 'b) bandit_build =
  SELECT_ARM_MUT :: "'m \<Rightarrow> u8 list option \<Rightarrow> nat \<times> 'm"
  ADD_REWARD_MUT :: "'m \<Rightarrow> nat \<Rightarrow> nat \<Rightarrow> 'm"
  SELECT_ARM_BATCH :: "'b \<Rightarrow> u8 list option \<Rightarrow> nat \<times> 'b"
  ADD_REWARD_BATCH :: "'b \<Rightarrow> nat \<Rightarrow> nat \<Rightarrow> 'b"
  MUT_ALG_exp :: bool
  BATCHSIZE_BANDIT :: bool
  BATCH_NUM_ARM :: nat

text \<open>
  What the iteration reads and writes: \<^verbatim>\<open>mut_bandit\<close>, the batch-size bandits
  \<^verbatim>\<open>used_bucket[case_idx]\<close>, \<^verbatim>\<open>havoc_queued\<close>, \<^verbatim>\<open>perf_score\<close>, \<^verbatim>\<open>afl->stage_max\<close> and
  \<^verbatim>\<open>afl->fsrv.total_havocs\<close>.
\<close>

record ('m, 'b) havoc_state =
  mut_bandit :: 'm
  used_bucket :: "nat \<Rightarrow> 'b"
  havoc_queued :: nat
  perf_score :: nat
  stage_max :: nat
  total_havocs :: nat

text \<open>
  One iteration of the havoc loop.  \<open>msk\<close> is the array \<^verbatim>\<open>mask[NUM_CASE_ENUM]\<close> of the
  operators that are illegal now.  \<open>rnd_t\<close> is \<^verbatim>\<open>rand_below(afl, afl->havoc_stack_pow2 + 1)\<close>,
  used without \<^verbatim>\<open>BATCHSIZE_BANDIT\<close>.  \<open>run selected_case use_stacking\<close> stands for the
  mutation, \<^verbatim>\<open>common_fuzz_stuff\<close> and the restore phase: it gives \<^verbatim>\<open>should_abandon\<close> and
  the value of \<^verbatim>\<open>afl->queued_paths\<close> afterwards.  The flag of the result is \<open>True\<close> for
  \<^verbatim>\<open>goto abandon_entry\<close>.  A masked pick under \<open>MUT_ALG_exp\<close> jumps to \<^verbatim>\<open>L_EXP_INVALID\<close>
  and from there to \<^verbatim>\<open>L_EXP_INVALID_2\<close>.
\<close>

definition havoc_iteration ::
  "('m, 'b) bandit_build \<Rightarrow> nat \<Rightarrow> u8 list \<Rightarrow> nat \<Rightarrow> (nat \<Rightarrow> nat \<Rightarrow> bool \<times> nat) \<Rightarrow>
     ('m, 'b) havoc_state \<Rightarrow> ('m, 'b) havoc_state \<times> bool" where
  "havoc_iteration bb havoc_max_mult msk rnd_t run st =
     (let sel = SELECT_ARM_MUT bb (mut_bandit st) (Some msk);
          selected_case = fst sel;
          m1 = snd sel;
          exp_invalid = (MUT_ALG_exp bb \<and> msk ! selected_case \<noteq> 0)
      in if exp_invalid then
           (st\<lparr>mut_bandit := ADD_REWARD_MUT bb m1 selected_case 0,
               total_havocs := total_havocs st + 1\<rparr>, False)
         else
           (let case_idx = selected_case;
                batch_bandit = used_bucket st case_idx;
                selb = (if BATCHSIZE_BANDIT bb then SELECT_ARM_BATCH bb batch_bandit None
                        else (rnd_t, batch_bandit));
                selected_t = fst selb;
                b1 = snd selb;
                use_stacking = (if BATCH_NUM_ARM bb = 7 then 2 ^ selected_t else 1 + selected_t);
                res = run selected_case use_stacking;
                should_abandon = fst res;
                queued_paths = snd res;
                st0 = st\<lparr>total_havocs := total_havocs st + 1\<rparr>
            in if should_abandon then
                 (st0\<lparr>used_bucket := (used_bucket st)(case_idx :=
                         (if BATCHSIZE_BANDIT bb then ADD_REWARD_BATCH bb b1 selected_t 0 else b1)),
                      mut_bandit := ADD_REWARD_MUT bb m1 selected_case 0\<rparr>, True)
               else if queued_paths \<noteq> havoc_queued st then
                 (let st1 = st0\<lparr>used_bucket := (used_bucket st)(case_idx :=
                                (if BATCHSIZE_BANDIT bb then ADD_REWARD_BATCH bb b1 selected_t 1 else b1)),
                             mut_bandit := ADD_REWARD_MUT bb m1 selected_case 1\<rparr>;
                      st2 = (if perf_score st \<le> havoc_max_mult * 100
                             then st1\<lparr>stage_max := stage_max st * 2, perf_score := perf_score st * 2\<rparr>
                             else st1)
                  in (st2\<lparr>havoc_queued := queued_paths\<rparr>, False))
               else
                 (st0\<lparr>used_bucket := (used_bucket st)(case_idx :=
                         (if BATCHSIZE_BANDIT bb then ADD_REWARD_BATCH bb b1 selected_t 0 else b1)),
                      mut_bandit := ADD_REWARD_MUT bb m1 selected_case 0\<rparr>, False)))"

declare scan_distribution.simps [simp del] expix_min_loop.simps [simp del]
  expix_exp_loop.simps [simp del] expix_div_loop.simps [simp del]


section \<open>ADWIN\<close>

text \<open>
  The types \<^verbatim>\<open>adwin_t\<close> and \<^verbatim>\<open>adwin_node_t\<close> and the constants \<^verbatim>\<open>ADWIN_M\<close>,
  \<^verbatim>\<open>ADWIN_MIN_ELEM_TO_START_DROP\<close>, \<^verbatim>\<open>ADWIN_MIN_ELEM_TO_CHECK\<close>, \<^verbatim>\<open>ADWIN_DROP_INTERVAL\<close>,
  \<^verbatim>\<open>ADWIN_DELTA\<close> and the switch \<^verbatim>\<open>ADWIN_ADAPTIVE_RESETTING\<close> are declared outside this
  file; the constants are parameters.  A node is the list \<^verbatim>\<open>sum[0 .. size - 1]\<close> of its
  windows, and the doubly linked list from \<^verbatim>\<open>head\<close> to \<^verbatim>\<open>tail\<close> is the list of its nodes,
  head first.  The fields are named \<open>adw_f\<close> for the field \<^verbatim>\<open>f\<close>.
\<close>

record adwin_consts =
  ADWIN_M :: nat
  ADWIN_MIN_ELEM_TO_START_DROP :: u64
  ADWIN_MIN_ELEM_TO_CHECK :: u64
  ADWIN_DROP_INTERVAL :: nat
  ADWIN_ADAPTIVE_RESETTING :: bool

record adwin =
  adw_nodes :: "u64 list list"
  adw_last_node_idx :: int
  adw_W :: u64
  adw_sum :: u64
  adw_num_add :: nat

text \<open>
  \<^verbatim>\<open>init_adwin\<close> on a zeroed \<^verbatim>\<open>adwin_t\<close>: one empty node, which is head and tail.
\<close>

definition init_adwin :: adwin where
  "init_adwin = \<lparr>adw_nodes = [[]], adw_last_node_idx = 0, adw_W = 0, adw_sum = 0, adw_num_add = 0\<rparr>"

text \<open>
  \<^verbatim>\<open>adwin_remove_front_windows(node, num)\<close> shifts the windows down and subtracts from
  \<^verbatim>\<open>size\<close>; with fewer than \<open>num\<close> windows \<^verbatim>\<open>size\<close> would turn negative, which is \<open>None\<close>.
  \<^verbatim>\<open>adwin_add_tail_window(node, s)\<close> appends.
\<close>

definition adwin_remove_front_windows :: "u64 list \<Rightarrow> nat \<Rightarrow> u64 list option" where
  "adwin_remove_front_windows node num = (if num \<le> length node then Some (drop num node) else None)"

definition adwin_add_tail_window :: "u64 list \<Rightarrow> u64 \<Rightarrow> u64 list" where
  "adwin_add_tail_window node s = node @ [s]"

text \<open>\<^verbatim>\<open>adwin_add_tail_node\<close>: a new empty tail.\<close>

definition adwin_add_tail_node :: "adwin \<Rightarrow> adwin" where
  "adwin_add_tail_node a =
     a\<lparr>adw_last_node_idx := adw_last_node_idx a + 1, adw_nodes := adw_nodes a @ [[]]\<rparr>"

text \<open>
  \<^verbatim>\<open>1ull << exp\<close>; a shift count outside 0 .. 63 is undefined behaviour, which is \<open>None\<close>.
\<close>

definition shl_1ull :: "int \<Rightarrow> u64 option" where
  "shl_1ull e = (if 0 \<le> e \<and> e < 64 then Some (push_bit (nat e) 1) else None)"

text \<open>
  \<^verbatim>\<open>adwin_expire_last_window\<close>: the oldest window, \<^verbatim>\<open>tail->sum[0]\<close>, leaves; an emptied tail
  that is not the head is unlinked.  Reading \<^verbatim>\<open>sum[0]\<close> of a node without windows is
  \<open>None\<close>, and so is a list without a head.
\<close>

definition adwin_expire_last_window :: "adwin \<Rightarrow> adwin option" where
  "adwin_expire_last_window a =
     (case shl_1ull (adw_last_node_idx a) of
        None \<Rightarrow> None
      | Some p \<Rightarrow>
          (let tail = last (adw_nodes a)
           in if adw_nodes a = [] \<or> tail = [] then None
              else
                (case adwin_remove_front_windows tail 1 of
                   None \<Rightarrow> None
                 | Some tail' \<Rightarrow>
                     (let a1 = a\<lparr>adw_W := adw_W a - p, adw_sum := adw_sum a - tail ! 0\<rparr>
                      in if tail' = [] \<and> length (adw_nodes a) \<noteq> 1
                         then Some (a1\<lparr>adw_nodes := butlast (adw_nodes a),
                                       adw_last_node_idx := adw_last_node_idx a - 1\<rparr>)
                         else Some (a1\<lparr>adw_nodes := butlast (adw_nodes a) @ [tail']\<rparr>)))))"

text \<open>
  \<^verbatim>\<open>adwin_normlize_buckets\<close>: from the head on, a node with more than \<^verbatim>\<open>ADWIN_M\<close> windows
  gives the sum of its two oldest windows to the next node (a new tail, if there is no
  next node) as one window.  \<open>k\<close> is the position of \<^verbatim>\<open>node\<close>.
\<close>

function adwin_normlize_buckets :: "adwin_consts \<Rightarrow> nat \<Rightarrow> adwin \<Rightarrow> adwin option" where
  "adwin_normlize_buckets c k a =
     (if k < length (adw_nodes a) then
        (let node = adw_nodes a ! k
         in if length node \<le> ADWIN_M c then Some a
            else
              (let a1 = (if k + 1 < length (adw_nodes a) then a else adwin_add_tail_node a);
                   s = node ! 0 + node ! 1
               in case adwin_remove_front_windows node 2 of
                    None \<Rightarrow> None
                  | Some node' \<Rightarrow>
                      adwin_normlize_buckets c (k + 1)
                        (a1\<lparr>adw_nodes := (adw_nodes a1)
                              [k + 1 := adwin_add_tail_window (adw_nodes a1 ! (k + 1)) s,
                               k := node']\<rparr>)))
      else Some a)"
  by pat_completeness auto
termination
proof (relation "measure (\<lambda>(c, k, a). sum_list (map length (drop k (adw_nodes a))))", goal_cases)
  case 1
  show ?case by simp
next
  case (2 c k a node a1 s node')
  let ?ns = "adw_nodes a"
  let ?ns1 = "adw_nodes a1"
  from 2 have len: "2 \<le> length node" and node': "node' = drop 2 node"
    by (auto simp: adwin_remove_front_windows_def split: if_splits)
  from 2 have k: "k < length ?ns" and nk: "?ns ! k = node" by simp_all
  have d0: "drop k ?ns = node # drop (Suc k) ?ns"
    using k nk by (metis Cons_nth_drop_Suc)
  show ?case
  proof (cases "k + 1 < length ?ns")
    case True
    with 2 have a1: "a1 = a" by simp
    have d2: "drop (Suc k) ?ns = ?ns ! Suc k # drop (Suc (Suc k)) ?ns"
      using True by (metis Cons_nth_drop_Suc Suc_eq_plus1)
    have d1: "drop (Suc k) (?ns[Suc k := adwin_add_tail_window (?ns ! Suc k) s])
        = adwin_add_tail_window (?ns ! Suc k) s # drop (Suc (Suc k)) ?ns"
      using True by (simp add: upd_conv_take_nth_drop)
    show ?thesis
      using len by (simp add: a1 d0 d1 [unfolded adwin_add_tail_window_def] d2 adwin_add_tail_window_def)
  next
    case False
    with k have kl: "Suc k = length ?ns" by simp
    from False 2 have a1: "adw_nodes a1 = ?ns @ [[]]" by (simp add: adwin_add_tail_node_def)
    have d1: "drop (Suc k) ((?ns @ [[]])[Suc k := adwin_add_tail_window ((?ns @ [[]]) ! Suc k) s])
        = [adwin_add_tail_window [] s]"
      using kl by (simp add: upd_conv_take_nth_drop)
    have d2: "drop (Suc k) ?ns = []" using kl by simp
    show ?thesis
      using len by (simp add: a1 d0 d1 [unfolded adwin_add_tail_window_def] d2 adwin_add_tail_window_def)
  qed
qed

text \<open>
  One pass of the loop in \<^verbatim>\<open>adwin_drop_last_till_identical\<close>, from the tail to the head.
  \<^verbatim>\<open>adwin_should_drop\<close> compares in floating point; its answer is the parameter
  \<open>should_drop s0 n0 s1 n1 W sum\<close> (\<^verbatim>\<open>ddv2\<close> and \<^verbatim>\<open>dd2_3\<close> are computed from \<^verbatim>\<open>W\<close> and
  \<^verbatim>\<open>sum\<close>).  The state is (\<open>n0\<close>, \<open>s0\<close>, \<open>n1\<close>, \<open>s1\<close>).
\<close>

datatype pass_result = Drop | Check_End | Next_Node "u64 \<times> u64 \<times> u64 \<times> u64" | Shift_Undefined

type_synonym drop_test = "u64 \<Rightarrow> u64 \<Rightarrow> u64 \<Rightarrow> u64 \<Rightarrow> u64 \<Rightarrow> u64 \<Rightarrow> bool"

fun pass_windows ::
  "adwin_consts \<Rightarrow> drop_test \<Rightarrow> u64 \<Rightarrow> u64 \<Rightarrow> int \<Rightarrow> u64 list \<Rightarrow> u64 \<times> u64 \<times> u64 \<times> u64 \<Rightarrow> pass_result" where
  "pass_windows c should_drop W0 sum0 e [] st = Next_Node st"
| "pass_windows c should_drop W0 sum0 e (w # ws) st =
     (case st of (n0, s0, n1, s1) \<Rightarrow>
        (case shl_1ull e of
           None \<Rightarrow> Shift_Undefined
         | Some p \<Rightarrow>
             (let n0' = n0 + p; n1' = n1 - p; s0' = s0 + w; s1' = s1 - w
              in if n1' < ADWIN_MIN_ELEM_TO_CHECK c then Check_End
                 else if n0' < ADWIN_MIN_ELEM_TO_CHECK c
                 then pass_windows c should_drop W0 sum0 e ws (n0', s0', n1', s1')
                 else if should_drop s0' n0' s1' n1' W0 sum0 then Drop
                 else pass_windows c should_drop W0 sum0 e ws (n0', s0', n1', s1'))))"

fun pass_nodes ::
  "adwin_consts \<Rightarrow> drop_test \<Rightarrow> u64 \<Rightarrow> u64 \<Rightarrow> int \<Rightarrow> u64 list list \<Rightarrow> u64 \<times> u64 \<times> u64 \<times> u64 \<Rightarrow>
     pass_result" where
  "pass_nodes c should_drop W0 sum0 e [] st = Check_End"
| "pass_nodes c should_drop W0 sum0 e (node # prevs) st =
     (case pass_windows c should_drop W0 sum0 e node st of
        Next_Node st' \<Rightarrow> pass_nodes c should_drop W0 sum0 (e - 1) prevs st'
      | r \<Rightarrow> r)"

definition adwin_pass :: "adwin_consts \<Rightarrow> drop_test \<Rightarrow> adwin \<Rightarrow> pass_result" where
  "adwin_pass c should_drop a =
     pass_nodes c should_drop (adw_W a) (adw_sum a) (adw_last_node_idx a) (rev (adw_nodes a))
       (0, 0, adw_W a, adw_sum a)"

text \<open>
  The loop \<^verbatim>\<open>while (1)\<close>: a pass that detects a change expires the oldest window and is
  followed by another pass; with \<^verbatim>\<open>ADWIN_ADAPTIVE_RESETTING\<close> it resets the whole instance
  and the loop ends.
\<close>

function adwin_drop_loop :: "adwin_consts \<Rightarrow> drop_test \<Rightarrow> adwin \<Rightarrow> adwin option" where
  "adwin_drop_loop c should_drop a =
     (case adwin_pass c should_drop a of
        Drop \<Rightarrow>
          (if ADWIN_ADAPTIVE_RESETTING c then Some init_adwin
           else
             (case adwin_expire_last_window a of
                None \<Rightarrow> None
              | Some a' \<Rightarrow> adwin_drop_loop c should_drop a'))
      | Shift_Undefined \<Rightarrow> None
      | _ \<Rightarrow> Some a)"
  by pat_completeness auto
termination
proof (relation "measure (\<lambda>(c, sd, a). sum_list (map length (adw_nodes a)))", goal_cases)
  case 1
  show ?case by simp
next
  case (2 c should_drop a a')
  let ?ns = "adw_nodes a"
  from 2(3) have ne: "last ?ns \<noteq> []" and ns: "?ns \<noteq> []"
    by (auto simp: adwin_expire_last_window_def Let_def split: option.splits if_splits)
  have sp: "?ns = butlast ?ns @ [last ?ns]" using ns by simp
  have tot: "sum_list (map length ?ns) = sum_list (map length (butlast ?ns)) + length (last ?ns)"
    by (subst sp) simp
  from 2(3) ne have "adw_nodes a' = butlast ?ns \<and> length (last ?ns) = 1 \<or>
      adw_nodes a' = butlast ?ns @ [drop 1 (last ?ns)]"
    by (auto simp: adwin_expire_last_window_def Let_def adwin_remove_front_windows_def
        split: option.splits if_splits)
  with tot ne show ?case by (auto simp: Suc_le_eq)
qed

text \<open>
  \<^verbatim>\<open>adwin_drop_last_till_identical\<close> and \<^verbatim>\<open>adwin_add_elem\<close>.
\<close>

definition adwin_drop_last_till_identical :: "adwin_consts \<Rightarrow> drop_test \<Rightarrow> adwin \<Rightarrow> adwin option" where
  "adwin_drop_last_till_identical c should_drop a =
     (if adw_W a < ADWIN_MIN_ELEM_TO_START_DROP c then Some a else adwin_drop_loop c should_drop a)"

definition adwin_add_elem :: "adwin_consts \<Rightarrow> drop_test \<Rightarrow> adwin \<Rightarrow> u8 \<Rightarrow> adwin option" where
  "adwin_add_elem c should_drop a reward =
     (let a1 = a\<lparr>adw_W := adw_W a + 1, adw_sum := adw_sum a + ucast reward,
                 adw_nodes := (adw_nodes a)[0 := adwin_add_tail_window (adw_nodes a ! 0) (ucast reward)]\<rparr>
      in case adwin_normlize_buckets c 0 a1 of
           None \<Rightarrow> None
         | Some a2 \<Rightarrow>
             if ADWIN_DROP_INTERVAL c \<noteq> 1 then
               (let a3 = a2\<lparr>adw_num_add := adw_num_add a2 + 1\<rparr>
                in if adw_num_add a3 \<noteq> ADWIN_DROP_INTERVAL c then Some a3
                   else adwin_drop_last_till_identical c should_drop (a3\<lparr>adw_num_add := 0\<rparr>))
             else adwin_drop_last_till_identical c should_drop a2)"

text \<open>
  The quantities of the invariant: the number of samples the bucket list stands for, a
  window of node \<open>k\<close> counting for \<open>2 ^ k\<close>, and the total of all windows (in \<^verbatim>\<open>u64\<close>).
\<close>

fun bucket_count :: "nat \<Rightarrow> u64 list list \<Rightarrow> nat" where
  "bucket_count k [] = 0"
| "bucket_count k (node # nodes) = length node * 2 ^ k + bucket_count (k + 1) nodes"

definition bucket_total :: "u64 list list \<Rightarrow> u64" where
  "bucket_total nodes = sum_list (map sum_list nodes)"

text \<open>
  The invariant of an ADWIN instance between calls: the list has a head,
  \<^verbatim>\<open>last_node_idx\<close> is the position of the tail, every node but the head has a window, no
  node has more than \<^verbatim>\<open>ADWIN_M\<close> windows, \<^verbatim>\<open>W\<close> is the number of samples the windows
  stand for (as a number, without wrap-around) and \<^verbatim>\<open>sum\<close> is the total of the windows.
\<close>

definition adwin_inv :: "adwin_consts \<Rightarrow> adwin \<Rightarrow> bool" where
  "adwin_inv c a \<longleftrightarrow>
     adw_nodes a \<noteq> [] \<and>
     adw_last_node_idx a = int (length (adw_nodes a)) - 1 \<and>
     (\<forall>k. 0 < k \<and> k < length (adw_nodes a) \<longrightarrow> adw_nodes a ! k \<noteq> []) \<and>
     (\<forall>k < length (adw_nodes a). length (adw_nodes a ! k) \<le> ADWIN_M c) \<and>
     unat (adw_W a) = bucket_count 0 (adw_nodes a) \<and>
     adw_sum a = bucket_total (adw_nodes a)"

text \<open>
  While \<^verbatim>\<open>adwin_normlize_buckets\<close> stands at node \<open>k\<close>, that node may hold one window more.
\<close>

definition adwin_mid_inv :: "adwin_consts \<Rightarrow> nat \<Rightarrow> adwin \<Rightarrow> bool" where
  "adwin_mid_inv c k a \<longleftrightarrow>
     adw_nodes a \<noteq> [] \<and>
     adw_last_node_idx a = int (length (adw_nodes a)) - 1 \<and>
     (\<forall>j. 0 < j \<and> j < length (adw_nodes a) \<longrightarrow> adw_nodes a ! j \<noteq> []) \<and>
     (\<forall>j < length (adw_nodes a).
        length (adw_nodes a ! j) \<le> (if j = k then ADWIN_M c + 1 else ADWIN_M c)) \<and>
     unat (adw_W a) = bucket_count 0 (adw_nodes a) \<and>
     adw_sum a = bucket_total (adw_nodes a)"

declare adwin_normlize_buckets.simps [simp del] adwin_drop_loop.simps [simp del]


section \<open>The selectors that read the mask\<close>














text \<open>
  \<^verbatim>\<open>kl(p, q)\<close>, \<^verbatim>\<open>dkl(p, q)\<close> and \<^verbatim>\<open>klucb_klucb(inst, arm)\<close>, whose loop makes at most 25
  steps.
\<close>

definition kl :: "'d double_ops \<Rightarrow> 'd \<Rightarrow> 'd \<Rightarrow> 'd" where
  "kl ar p q =
     d_plus ar (d_times ar p (d_log ar (d_divide ar p q)))
       (d_times ar (d_minus ar (d_of_int ar 1) p)
          (d_log ar (d_divide ar (d_minus ar (d_of_int ar 1) p) (d_minus ar (d_of_int ar 1) q))))"





















section \<open>Properties of the uniform selector\<close>

lemma uniform_count_ge: "cnt \<le> uniform_count msk n i cnt"
proof (induction msk n i cnt rule: uniform_count.induct)
  case (1 msk n i cnt)
  show ?case
  proof (cases "i < n")
    case False
    then show ?thesis by (subst uniform_count.simps) simp
  next
    case True
    note lt = this
    show ?thesis
    proof (cases "is_masked msk i")
      case True
      with lt "1.IH"(1) show ?thesis by (subst uniform_count.simps) simp
    next
      case False
      with lt "1.IH"(2) have "cnt + 1 \<le> uniform_count msk n (i + 1) (cnt + 1)" by blast
      with lt False show ?thesis by (subst uniform_count.simps) simp
    qed
  qed
qed

lemma uniform_count_pos:
  "i \<le> j \<Longrightarrow> j < n \<Longrightarrow> \<not> is_masked msk j \<Longrightarrow> cnt < uniform_count msk n i cnt"
proof (induction msk n i cnt rule: uniform_count.induct)
  case (1 msk n i cnt)
  from "1.prems" have lt: "i < n" by simp
  show ?case
  proof (cases "is_masked msk i")
    case True
    with "1.prems" have "i \<noteq> j" by auto
    with "1.prems" have "i + 1 \<le> j" by simp
    with "1.IH"(1) [OF lt True] "1.prems" have "cnt < uniform_count msk n (i + 1) cnt" by blast
    with lt True show ?thesis by (subst uniform_count.simps) simp
  next
    case False
    have "cnt + 1 \<le> uniform_count msk n (i + 1) (cnt + 1)" by (rule uniform_count_ge)
    with lt False show ?thesis by (subst uniform_count.simps) simp
  qed
qed

lemma uniform_pick_found:
  "k + cnt < uniform_count msk n i cnt \<Longrightarrow>
   \<exists>j. uniform_pick msk n i k = Some j \<and> i \<le> j \<and> j < n \<and> \<not> is_masked msk j"
proof (induction msk n i k arbitrary: cnt rule: uniform_pick.induct)
  case (1 msk n i k)
  show ?case
  proof (cases "i < n")
    case False
    with "1.prems" show ?thesis by (subst (asm) uniform_count.simps) simp
  next
    case True
    note lt = this
    show ?thesis
    proof (cases "is_masked msk i")
      case True
      with lt "1.prems" have "k + cnt < uniform_count msk n (i + 1) cnt"
        by (subst (asm) uniform_count.simps) simp
      from "1.IH"(1) [OF lt True this] obtain j where
        "uniform_pick msk n (i + 1) k = Some j" "i + 1 \<le> j" "j < n" "\<not> is_masked msk j" by blast
      with lt True show ?thesis by (subst uniform_pick.simps) simp
    next
      case False
      note um = this
      show ?thesis
      proof (cases "k = 0")
        case True
        with lt um show ?thesis by (subst uniform_pick.simps) simp
      next
        case False
        from lt um "1.prems" have "k + cnt < uniform_count msk n (i + 1) (cnt + 1)"
          by (subst (asm) uniform_count.simps) simp
        with False have "(k - 1) + (cnt + 1) < uniform_count msk n (i + 1) (cnt + 1)" by simp
        from "1.IH"(2) [OF lt um False this] obtain j where
          "uniform_pick msk n (i + 1) (k - 1) = Some j" "i + 1 \<le> j" "j < n" "\<not> is_masked msk j" by blast
        with lt um False show ?thesis by (subst uniform_pick.simps) simp
      qed
    qed
  qed
qed

text \<open>
  Claim C10.  For a bandit with at least one arm and a mask (possibly \<^verbatim>\<open>NULL\<close>) that leaves
  some arm unmasked, \<^verbatim>\<open>uniform_select_arm\<close> returns the index of an unmasked arm below
  \<open>n\<close>; it never falls through to \<^verbatim>\<open>assert(0)\<close> (the value \<open>None\<close>).  The draw
  \<^verbatim>\<open>rand_below(afl, cnt)\<close> is any value below its positive limit.
\<close>

theorem uniform_select_arm_unmasked:
  assumes "1 \<le> n"
    and "case msk of None \<Rightarrow> True | Some m \<Rightarrow> n \<le> length m"
    and "\<exists>i<n. \<not> is_masked msk i"
    and "\<forall>m>0. rand_below m < m"
  shows "\<exists>i. uniform_select_arm rand_below n msk = Some i \<and> i < n \<and> \<not> is_masked msk i"
proof -
  from assms(3) obtain j where j: "j < n" "\<not> is_masked msk j" by blast
  have "0 < uniform_count msk n 0 0" using uniform_count_pos [of 0 j n msk 0] j by simp
  with assms(4) have "rand_below (uniform_count msk n 0 0) + 0 < uniform_count msk n 0 0" by simp
  from uniform_pick_found [OF this] show ?thesis by (auto simp: uniform_select_arm_def Let_def)
qed

theorem uniform_select_arm_unmasked_witness:
  "(1::nat) \<le> 4 \<and> (4::nat) \<le> length [1, 0, 1, 0 :: u8] \<and>
   (\<exists>i<4. \<not> is_masked (Some [1, 0, 1, 0]) i) \<and>
   (\<exists>i. uniform_select_arm (\<lambda>m. m - 1) 4 (Some [1, 0, 1, 0]) = Some i \<and> i < 4 \<and>
        \<not> is_masked (Some [1, 0, 1, 0]) i)"
proof -
  have h: "\<exists>i<4. \<not> is_masked (Some [1, 0, 1, 0]) i"
    by (rule exI [of _ 1]) (simp add: is_masked_def)
  have r: "\<forall>m>0. (\<lambda>m::nat. m - 1) m < m" by simp
  from uniform_select_arm_unmasked [of 4 "Some [1, 0, 1, 0]" "\<lambda>m. m - 1", OF _ _ h r] h
  show ?thesis by simp
qed

section \<open>Properties of \<^verbatim>\<open>trim_case_rb\<close>\<close>

text \<open>
  Claim C6, as stated, fails: for a three-byte input and a non-zero \<^verbatim>\<open>rb_fuzzing\<close> the
  function returns 0, not the original length 3 (\<^verbatim>\<open>if (in_len < 5) return 0;\<close>).
\<close>

theorem trim_case_rb_short_counterexample:
  "trim_case_rb \<lparr>TRIM_START_STEPS = 16, TRIM_END_STEPS = 1024, TRIM_MIN_BYTES = 4\<rparr>
      (\<lambda>b. (False, True)) (\<lambda>n. n) 1 [1, 2, 3] 3 [0, 0, 0] = Some ([1, 2, 3], [0, 0, 0], 0) \<and>
   trim_case_rb \<lparr>TRIM_START_STEPS = 16, TRIM_END_STEPS = 1024, TRIM_MIN_BYTES = 4\<rparr>
      (\<lambda>b. (False, True)) (\<lambda>n. n) 1 [1, 2, 3] 3 [0, 0, 0] \<noteq> Some ([1, 2, 3], [0, 0, 0], length [1, 2, 3 :: u8])"
  by (simp add: trim_case_rb_def)

text \<open>
  Claim C6, amended.  For an input shorter than 5 bytes \<^verbatim>\<open>trim_case_rb\<close> leaves both
  buffers untouched and returns 0 (the length itself only when \<^verbatim>\<open>afl->rb_fuzzing\<close> is 0);
  its caller in \<^verbatim>\<open>fuzz_one_original\<close> takes a returned 0 as "keep \<^verbatim>\<open>len\<close>", so the
  driver's buffers and length are unchanged.
\<close>

theorem trim_case_rb_short:
  "in_len < 5 \<Longrightarrow>
   trim_case_rb c run next_p2 rb_fuzzing in_buf in_len out_buf =
     Some (in_buf, out_buf, if rb_fuzzing = 0 then in_len else 0) \<and>
   rb_trim_stage c run next_p2 rb_fuzzing trim_for_branch in_buf in_len out_buf =
     Some (in_buf, out_buf, in_len)"
  by (simp add: trim_case_rb_def rb_trim_stage_def)

theorem trim_case_rb_short_witness:
  "(3::nat) < 5 \<and>
   trim_case_rb \<lparr>TRIM_START_STEPS = 16, TRIM_END_STEPS = 1024, TRIM_MIN_BYTES = 4\<rparr>
      (\<lambda>b. (False, True)) (\<lambda>n. n) 1 [1, 2, 3] 3 [0, 0, 0] = Some ([1, 2, 3], [0, 0, 0], 0) \<and>
   rb_trim_stage \<lparr>TRIM_START_STEPS = 16, TRIM_END_STEPS = 1024, TRIM_MIN_BYTES = 4\<rparr>
      (\<lambda>b. (False, True)) (\<lambda>n. n) 1 True [1, 2, 3] 3 [0, 0, 0] = Some ([1, 2, 3], [0, 0, 0], 3)"
  using trim_case_rb_short [of 3 "\<lparr>TRIM_START_STEPS = 16, TRIM_END_STEPS = 1024, TRIM_MIN_BYTES = 4\<rparr>"
      "\<lambda>b. (False, True)" "\<lambda>n. n" 1 "[1, 2, 3]" "[0, 0, 0]" True]
  by simp

section \<open>Properties of the branch mask\<close>

lemma flip8_mask_keeps:
  "flip8_mask run rb out_buf len cur bm = Completed m \<Longrightarrow> len \<le> k \<Longrightarrow>
   length m = length bm \<and> m ! k = bm ! k"
proof (induction run rb out_buf len cur bm rule: flip8_mask.induct)
  case (1 run rb out_buf len cur bm)
  show ?case
  proof (cases "cur < len")
    case False
    with "1.prems" show ?thesis by (subst (asm) flip8_mask.simps) simp
  next
    case True
    let ?res = "run (out_buf[cur := (out_buf ! cur) XOR 0xFF])"
    let ?bm = "if rb \<and> snd ?res then bm[cur := 1] else bm"
    from True "1.prems"(1) have na: "\<not> fst ?res"
      by (subst (asm) flip8_mask.simps) (auto simp: Let_def split: if_splits)
    with True "1.prems"(1) have "flip8_mask run rb out_buf len (cur + 1) ?bm = Completed m"
      by (subst (asm) flip8_mask.simps) (simp add: Let_def)
    from "1.IH" [OF True refl na this "1.prems"(2)]
    have "length m = length ?bm \<and> m ! k = ?bm ! k" .
    with True "1.prems"(2) show ?thesis by auto
  qed
qed

lemma rbrem8_keeps:
  "rbrem8 run out_buf len cur bm = Completed m \<Longrightarrow> len \<le> k \<Longrightarrow>
   length m = length bm \<and> m ! k = bm ! k"
proof (induction run out_buf len cur bm rule: rbrem8.induct)
  case (1 run out_buf len cur bm)
  show ?case
  proof (cases "cur < len")
    case False
    with "1.prems" show ?thesis by (subst (asm) rbrem8.simps) simp
  next
    case True
    let ?tmp = "take cur out_buf @ take (len - cur - 1) (drop (1 + cur) out_buf)"
    let ?res = "run ?tmp"
    let ?bm = "if snd ?res then bm[cur := bm ! cur + 2] else bm"
    from True "1.prems"(1) have na: "\<not> fst ?res"
      by (subst (asm) rbrem8.simps) (auto simp: Let_def split: if_splits)
    with True "1.prems"(1) have "rbrem8 run out_buf len (cur + 1) ?bm = Completed m"
      by (subst (asm) rbrem8.simps) (simp add: Let_def)
    from "1.IH" [OF True refl refl na this "1.prems"(2)]
    have "length m = length ?bm \<and> m ! k = ?bm ! k" .
    with True "1.prems"(2) show ?thesis by auto
  qed
qed

lemma rbadd8_last:
  "rbadd8 run rnd out_buf len cur bm = Completed m \<Longrightarrow> cur \<le> len \<Longrightarrow> length bm = len + 1 \<Longrightarrow>
   length m = len + 1 \<and>
   m ! len = (if snd (run (take len out_buf @ [rnd len] @ take 0 (drop len out_buf)))
              then bm ! len + 4 else bm ! len)"
proof (induction run rnd out_buf len cur bm rule: rbadd8.induct)
  case (1 run rnd out_buf len cur bm)
  let ?tmp = "take cur out_buf @ [rnd cur] @ take (len - cur) (drop cur out_buf)"
  let ?res = "run ?tmp"
  let ?bm = "if snd ?res then bm[cur := bm ! cur + 4] else bm"
  from "1.prems" have le: "cur \<le> len" by simp
  from le "1.prems"(1) have na: "\<not> fst ?res"
    by (subst (asm) rbadd8.simps) (auto simp: Let_def split: if_splits)
  with le "1.prems"(1) have step: "rbadd8 run rnd out_buf len (cur + 1) ?bm = Completed m"
    by (subst (asm) rbadd8.simps) (simp add: Let_def)
  show ?case
  proof (cases "cur = len")
    case True
    from step True have "m = ?bm" by (subst (asm) rbadd8.simps) simp
    with True "1.prems"(3) show ?thesis by simp
  next
    case False
    with le have lt: "cur + 1 \<le> len" by simp
    have len': "length ?bm = len + 1" using "1.prems"(3) by simp
    from "1.IH" [OF le refl refl na step lt len'] False le show ?thesis by auto
  qed
qed


text \<open>
  Claim C2, as stated, fails in rare-branch mode: for a two-byte input whose candidates
  never hit the target branch, the mask built by the deterministic stage has length 3 and
  its final byte is 0, so INSERT_BEFORE_SAFE is not set there.
\<close>

theorem branch_mask_trailing_counterexample:
  "init_branch_mask False False 1 2 = Some [0, 0, 0] \<and>
   build_branch_mask (\<lambda>b. (False, False)) (\<lambda>i. 0) True [0x41, 0x42] 2 [0, 0, 0] = Completed [0, 0, 0] \<and>
   length [0, 0, 0 :: u8] = 2 + 1 \<and>
   ([0, 0, 0 :: u8] ! 2) AND INSERT_BEFORE_SAFE = 0"
  by code_simp

text \<open>
  Claim C2, amended.  The mask for an input of length \<open>L\<close> has length \<open>L + 1\<close>.  A
  permissive mask from \<^verbatim>\<open>alloc_branch_mask\<close> has the final byte INSERT_BEFORE_SAFE, and the
  deterministic stage outside rare-branch mode keeps it.  In rare-branch mode the final byte
  of the mask built byte by byte is INSERT_BEFORE_SAFE exactly when the candidate with a
  random byte appended at position \<open>L\<close> hit the target branch, and 0 otherwise.
\<close>

theorem branch_mask_trailing:
  assumes "length out_buf = L"
  shows "(\<exists>m. alloc_branch_mask (L + 1) = Some m \<and> length m = L + 1 \<and> m ! L = INSERT_BEFORE_SAFE \<and>
            (\<forall>m'. build_branch_mask run rnd False out_buf L m = Completed m' \<longrightarrow>
                  length m' = L + 1 \<and> m' ! L = INSERT_BEFORE_SAFE)) \<and>
         (\<forall>m'. build_branch_mask run rnd True out_buf L (replicate (L + 1) 0) = Completed m' \<longrightarrow>
                  length m' = L + 1 \<and>
                  m' ! L = (if snd (run (out_buf @ [rnd L])) then INSERT_BEFORE_SAFE else 0))"
proof (intro conjI allI impI)
  let ?m = "(replicate (L + 1) (7::u8))[L := 4]"
  have alloc: "alloc_branch_mask (L + 1) = Some ?m" by (simp add: alloc_branch_mask_def)
  have lm: "length ?m = L + 1" by (simp only: length_list_update length_replicate)
  have nm: "?m ! L = INSERT_BEFORE_SAFE"
    unfolding INSERT_BEFORE_SAFE_def by (rule nth_list_update_eq) (simp del: replicate.simps)
  have perm: "length m' = L + 1 \<and> m' ! L = INSERT_BEFORE_SAFE"
    if "build_branch_mask run rnd False out_buf L ?m = Completed m'" for m'
  proof -
    from that have "flip8_mask run False out_buf L 0 ?m = Completed m'"
      by (auto simp: build_branch_mask_def split: staged.splits)
    from flip8_mask_keeps [OF this, of L] have "length m' = length ?m" "m' ! L = ?m ! L" by simp_all
    with lm nm show ?thesis by (simp only:)
  qed
  show "\<exists>m. alloc_branch_mask (L + 1) = Some m \<and> length m = L + 1 \<and> m ! L = INSERT_BEFORE_SAFE \<and>
            (\<forall>m'. build_branch_mask run rnd False out_buf L m = Completed m' \<longrightarrow>
                  length m' = L + 1 \<and> m' ! L = INSERT_BEFORE_SAFE)"
    using alloc perm lm nm by (intro exI [of _ ?m]) blast
next
  fix m'
  assume b: "build_branch_mask run rnd True out_buf L (replicate (L + 1) 0) = Completed m'"
  then obtain bm1 bm2 where
    s1: "flip8_mask run True out_buf L 0 (replicate (L + 1) 0) = Completed bm1" and
    s2: "rbrem8 run out_buf L 0 bm1 = Completed bm2" and
    s3: "rbadd8 run rnd out_buf L 0 bm2 = Completed m'"
    by (auto simp: build_branch_mask_def split: staged.splits)
  from flip8_mask_keeps [OF s1, of L] have k1: "length bm1 = L + 1" "bm1 ! L = 0"
    by (simp_all del: replicate.simps)
  from rbrem8_keeps [OF s2, of L] k1 have k2: "length bm2 = L + 1" "bm2 ! L = 0" by simp_all
  from rbadd8_last [OF s3 _ k2(1)] k2(2) assms
  have "length m' = L + 1 \<and> m' ! L = (if snd (run (out_buf @ [rnd L])) then 4 else 0)" by simp
  then show "length m' = L + 1" and
    "m' ! L = (if snd (run (out_buf @ [rnd L])) then INSERT_BEFORE_SAFE else 0)"
    by (simp_all add: INSERT_BEFORE_SAFE_def)
qed

theorem branch_mask_trailing_witness:
  "length [0x41, 0x42 :: u8] = 2 \<and>
   alloc_branch_mask (2 + 1) = Some [7, 7, 4] \<and>
   build_branch_mask (\<lambda>b. (False, length b = 3)) (\<lambda>i. 0) True [0x41, 0x42] 2 (replicate (2 + 1) 0)
     = Completed [4, 4, 4] \<and>
   [4, 4, 4 :: u8] ! 2 = INSERT_BEFORE_SAFE"
proof -
  have e: "build_branch_mask (\<lambda>b. (False, length b = 3)) (\<lambda>i. 0) True [0x41, 0x42] 2 (replicate (2 + 1) 0)
     = Completed [4, 4, 4]"
    by code_simp
  have a: "alloc_branch_mask (2 + 1) = Some [7, 7, 4]"
    by code_simp
  from branch_mask_trailing [of "[0x41, 0x42]" 2 "\<lambda>b. (False, length b = 3)" "\<lambda>i. 0"] e a
  show ?thesis by (simp add: INSERT_BEFORE_SAFE_def)
qed

section \<open>The rare-branch selector on a two-branch table\<close>

text \<open>
  Claim C5 at a failing input.  The table has two branches, branch 0 with 3 hits and
  branch 1 with 2 hits, nothing is blacklisted and \<^verbatim>\<open>rare_branch_exp\<close> is 4; both branches
  are found rare (\<^verbatim>\<open>get_lowest_hit_branch_ids\<close> returns 0, 1).  The input's
  \<^verbatim>\<open>trace_mini\<close> has both bits set.  The claim asks for the two branches by increasing hit
  count, that is branch 1 then branch 0 (the entries 2, 1, each an id plus one).  The code
  returns the entries 2, 2: branch 1 twice and branch 0 not at all, because the insertion
  loop has no \<^verbatim>\<open>break\<close> and the "append at end" block runs after every insertion.
\<close>

theorem is_rb_hit_mini_two_branches:
  "get_lowest_hit_branch_ids
     \<lparr>map_size = 2, hit_bits = [3, 2], blacklist = [], max_rare_branches = 4\<rparr> 4 = Some (2, [0, 1]) \<and>
   is_rb_hit_mini
     \<lparr>map_size = 2, hit_bits = [3, 2], blacklist = [], max_rare_branches = 4\<rparr> 4 [3] =
     Some (2, Some [2, 2])"
  by code_simp


section \<open>Properties of the fine-grained havoc operators\<close>

lemma havoc_fine_loop_step:
  assumes "i < use_stacking"
    and "get_random_modifiable_posn rnd k (num_to_modify_of op) 1 temp_len bm (temp_len + 1) = Inr (pos, k1)"
    and "pos \<noteq> NO_POSITION" and "i < 512"
    and "fine_apply c rnd k1 op pos i (ob, md) = Inr (ob', md', k2)"
  shows "havoc_fine_loop c rnd op bm temp_len use_stacking i (ob, mp, md, k) =
         havoc_fine_loop c rnd op bm temp_len use_stacking (i + 1) (ob', mp[i := pos], md', k2)"
  using assms by (subst havoc_fine_loop.simps) simp

lemma havoc_fine_loop_break:
  assumes "i < use_stacking"
    and "get_random_modifiable_posn rnd k (num_to_modify_of op) 1 temp_len bm (temp_len + 1) = Inr (NO_POSITION, k1)"
  shows "havoc_fine_loop c rnd op bm temp_len use_stacking i (ob, mp, md, k) = Inr (ob, mp, md, k1)"
  using assms by (subst havoc_fine_loop.simps) simp

lemma havoc_fine_loop_end:
  "use_stacking \<le> i \<Longrightarrow> havoc_fine_loop c rnd op bm temp_len use_stacking i st = Inr st"
  by (subst havoc_fine_loop.simps) (simp split: prod.splits)

text \<open>
  Claim C1 at a failing input.  The input has 8 bytes and only byte 5 is OVERWRITE_SAFE.
  For \<^verbatim>\<open>FLIP_BIT1\<close> the query is made with \<^verbatim>\<open>num_to_modify\<close> 1; it finds the one legal byte
  position 5 and returns \<^verbatim>\<open>position_map[random_pos] + rand_below(afl, 8)\<close>, here 5 + 3 = 8, a
  byte position plus a bit offset.  \<^verbatim>\<open>FLIP_BIT(out_buf, 8)\<close> takes 8 as a bit index and flips
  the top bit of byte 1, whose mask byte is 0.  The arrays \<^verbatim>\<open>mutation_pos\<close> and
  \<^verbatim>\<open>mutation_data32\<close> and the constants are arbitrary.
\<close>

theorem flip_bit1_outside_mask:
  "get_random_modifiable_posn (\<lambda>k m. [0, 3] ! k) 0 1 OVERWRITE_SAFE 8 [0, 0, 0, 0, 0, 1, 0, 0, 4] 9
     = Inr (8, 2) \<and>
   havoc_fine_loop c (\<lambda>k m. [0, 3] ! k) FLIP_BIT1 [0, 0, 0, 0, 0, 1, 0, 0, 4] 8 1 0
     ([0, 0, 0, 0, 0, 0, 0, 0], mutation_pos, mutation_data, 0)
     = Inr ([0, 128, 0, 0, 0, 0, 0, 0], mutation_pos[0 := 8], mutation_data, 2) \<and>
   ([0, 0, 0, 0, 0, 1, 0, 0, 4 :: u8] ! 1) AND OVERWRITE_SAFE = 0"
proof -
  have q: "get_random_modifiable_posn (\<lambda>k m. [0, 3] ! k) 0 1 OVERWRITE_SAFE 8 [0, 0, 0, 0, 0, 1, 0, 0, 4] 9
     = Inr (8, 2)"
    by code_simp
  then have q': "get_random_modifiable_posn (\<lambda>k m. [0, 3] ! k) 0 (num_to_modify_of FLIP_BIT1) 1 8
      [0, 0, 0, 0, 0, 1, 0, 0, 4] (8 + 1) = Inr (8, 2)"
    by (simp add: OVERWRITE_SAFE_def)
  have f: "fine_apply c (\<lambda>k m. [0, 3] ! k) 2 FLIP_BIT1 8 0 ([0, 0, 0, 0, 0, 0, 0, 0], mutation_data)
      = Inr ([0, 128, 0, 0, 0, 0, 0, 0], mutation_data, 2)"
    by (simp add: fine_apply_def FLIP_BIT_def drop_bit_eq_div)
  have "havoc_fine_loop c (\<lambda>k m. [0, 3] ! k) FLIP_BIT1 [0, 0, 0, 0, 0, 1, 0, 0, 4] 8 1 0
     ([0, 0, 0, 0, 0, 0, 0, 0], mutation_pos, mutation_data, 0)
     = Inr ([0, 128, 0, 0, 0, 0, 0, 0], mutation_pos[0 := 8], mutation_data, 2)"
    by (subst havoc_fine_loop_step [OF _ q' _ _ f]) (simp_all add: NO_POSITION_def havoc_fine_loop_end)
  moreover have "([0, 0, 0, 0, 0, 1, 0, 0, 4 :: u8] ! 1) AND OVERWRITE_SAFE = 0" by simp
  ultimately show ?thesis using q by simp
qed

lemma posn_scan_none:
  "\<forall>j<map_len. (branch_mask ! j) AND mod_typ = 0 \<Longrightarrow>
   posn_scan n mod_typ map_len branch_mask cap i ([], - 1, True) = Inr ([], - 1, True)"
proof (induction "map_len - i" arbitrary: i)
  case 0
  then show ?case by (subst posn_scan.simps) simp
next
  case (Suc d)
  then have lt: "i < map_len" and d: "d = map_len - (i + 1)" by simp_all
  from Suc.hyps(1) [OF d Suc.prems] lt Suc.prems show ?case
    by (subst posn_scan.simps) simp
qed

lemma get_random_modifiable_posn_none:
  "\<forall>j<map_len. (branch_mask ! j) AND mod_typ = 0 \<Longrightarrow>
   get_random_modifiable_posn rnd k n mod_typ map_len branch_mask cap = Inr (NO_POSITION, k)"
  by (simp add: get_random_modifiable_posn_def posn_scan_none)

lemma flip_mask_nonzero: "drop_bit (p mod 8) (128 :: u8) \<noteq> 0"
proof -
  have "p mod 8 < 8" by simp
  then have "p mod 8 \<in> {0, 1, 2, 3, 4, 5, 6, 7}" by auto
  then show ?thesis by (auto simp: drop_bit_eq_div)
qed

lemma xor_changes: "(x :: u8) \<noteq> 0 \<Longrightarrow> b XOR x \<noteq> b"
proof
  assume "x \<noteq> 0" "b XOR x = b"
  then have "b XOR (b XOR x) = b XOR b" by simp
  then have "x = 0" by (simp flip: xor.assoc)
  with \<open>x \<noteq> 0\<close> show False by simp
qed

text \<open>
  Claim C3 where it fails: an iteration of \<^verbatim>\<open>FLIP_BIT1\<close> with one sub-application whose
  position query finds no legal position (no byte is OVERWRITE_SAFE) and breaks the inner
  loop.  Nothing was flipped and nothing recorded, but the restore phase still replays
  \<^verbatim>\<open>use_stacking\<close> entries: it flips the bit at \<^verbatim>\<open>mutation_pos[0]\<close>, which the iteration
  never wrote.  When that stale entry lies inside the buffer, \<^verbatim>\<open>out_buf\<close> differs from
  \<^verbatim>\<open>in_buf\<close> after the restore phase.
\<close>

theorem fine_restore_after_early_break:
  assumes "\<forall>j<len. (branch_mask ! j) AND OVERWRITE_SAFE = 0"
    and "length in_buf = len" and "out_buf = in_buf"
    and "MIN_LEN_FOR_OPTIMIZED_RESTORE c \<le> len"
    and "length stale_pos = 512" and "stale_pos ! 0 div 8 < len"
    and "\<not> should_abandon out_buf"
  shows "\<exists>out_buf'. havoc_fine_iteration c rnd should_abandon FLIP_BIT1 branch_mask in_buf len 1
            stale_pos stale_data out_buf = Inr (Completed out_buf') \<and>
          out_buf' \<noteq> in_buf"
proof -
  let ?p = "stale_pos ! 0"
  let ?b = "in_buf ! (?p div 8)"
  let ?r = "in_buf[?p div 8 := ?b XOR drop_bit (?p mod 8) 128]"
  have q: "get_random_modifiable_posn rnd 0 (num_to_modify_of FLIP_BIT1) 1 len branch_mask (len + 1)
      = Inr (NO_POSITION, 0)"
    using assms(1) by (simp add: get_random_modifiable_posn_none OVERWRITE_SAFE_def)
  have loop: "havoc_fine_loop c rnd FLIP_BIT1 branch_mask len (Suc 0) 0 (in_buf, stale_pos, stale_data, 0)
      = Inr (in_buf, stale_pos, stale_data, 0)"
    by (rule havoc_fine_loop_break [OF _ q]) simp
  have r1: "restore_one BIT1 stale_pos stale_data 0 in_buf = Inr ?r"
    using assms(2,6) by (simp add: restore_one_def FLIP_BIT_def)
  have r: "restore_loop BIT1 stale_pos stale_data (Suc 0) in_buf = Inr ?r"
    by (simp add: r1)
  have it: "havoc_fine_iteration c rnd should_abandon FLIP_BIT1 branch_mask in_buf len 1
            stale_pos stale_data in_buf = Inr (Completed ?r)"
    using assms(2,3,4,7) by (simp add: havoc_fine_iteration_def loop r1 min_len_of_def)
  have "?r \<noteq> in_buf"
  proof
    assume "?r = in_buf"
    then have "?r ! (?p div 8) = ?b" by simp
    with assms(2,6) xor_changes [OF flip_mask_nonzero, of ?b ?p] show False by simp
  qed
  with it show ?thesis unfolding assms(3) by simp
qed

theorem fine_restore_after_early_break_witness:
  "map (\<lambda>b. b AND OVERWRITE_SAFE) (take 4 [0, 0, 0, 0, 4 :: u8]) = [0, 0, 0, 0] \<and>
   length (replicate 512 (0::nat)) = 512 \<and> replicate 512 (0::nat) ! 0 div 8 < 4 \<and>
   (\<exists>out_buf'.
      havoc_fine_iteration
        \<lparr>interesting_8 = [], interesting_16 = [], interesting_32 = [], ARITH_MAX = 35,
         MIN_LEN_FOR_OPTIMIZED_RESTORE = 4\<rparr>
        (\<lambda>k m. 0) (\<lambda>b. False) FLIP_BIT1 [0, 0, 0, 0, 4] [0x41, 0x42, 0x43, 0x44] 4 1
        (replicate 512 0) (replicate 2048 0) [0x41, 0x42, 0x43, 0x44]
        = Inr (Completed out_buf') \<and>
      out_buf' \<noteq> [0x41, 0x42, 0x43, 0x44])"
proof -
  have m: "\<forall>j<4. ([0, 0, 0, 0, 4 :: u8] ! j) AND OVERWRITE_SAFE = 0"
  proof (intro allI impI)
    fix j :: nat assume "j < 4"
    then have "j \<in> {0, 1, 2, 3}" by auto
    then show "([0, 0, 0, 0, 4 :: u8] ! j) AND OVERWRITE_SAFE = 0" by auto
  qed
  have s: "length (replicate 512 (0::nat)) = 512" "replicate 512 (0::nat) ! 0 div 8 < 4"
    by (simp_all del: replicate.simps)
  from fine_restore_after_early_break [OF m _ refl _ s, of "[0x41, 0x42, 0x43, 0x44]"
      "\<lparr>interesting_8 = [], interesting_16 = [], interesting_32 = [], ARITH_MAX = 35,
        MIN_LEN_FOR_OPTIMIZED_RESTORE = 4\<rparr>" "\<lambda>b. False" "\<lambda>k m. 0" "replicate 2048 0"]
  have "\<exists>out_buf'.
      havoc_fine_iteration
        \<lparr>interesting_8 = [], interesting_16 = [], interesting_32 = [], ARITH_MAX = 35,
         MIN_LEN_FOR_OPTIMIZED_RESTORE = 4\<rparr>
        (\<lambda>k m. 0) (\<lambda>b. False) FLIP_BIT1 [0, 0, 0, 0, 4] [0x41, 0x42, 0x43, 0x44] 4 1
        (replicate 512 0) (replicate 2048 0) [0x41, 0x42, 0x43, 0x44]
        = Inr (Completed out_buf') \<and>
      out_buf' \<noteq> [0x41, 0x42, 0x43, 0x44]"
    by simp
  moreover have "map (\<lambda>b. b AND OVERWRITE_SAFE) (take 4 [0, 0, 0, 0, 4 :: u8]) = [0, 0, 0, 0]"
    by simp
  ultimately show ?thesis using s by blast
qed

section \<open>Properties of the binary64 rounding\<close>

text \<open>
  The fields of the IEEE arithmetic, and bounds on the rounding: a value that is not
  negative is rounded to one that is not negative and at most twice as large, and a
  value in the normal range to one at least half as large.
\<close>

lemma ieee_fields [simp]:
  "d_plus (ieee rd) = ieee_plus rd" "d_minus (ieee rd) = ieee_minus rd"
  "d_times (ieee rd) = ieee_times rd" "d_divide (ieee rd) = ieee_divide rd"
  "d_uminus (ieee rd) = ieee_uminus" "d_less (ieee rd) = ieee_less"
  "d_less_eq (ieee rd) = ieee_less_eq" "d_of_int (ieee rd) = (\<lambda>i. rd (of_int i))"
  "d_to_int (ieee rd) = ieee_to_int" "d_INFINITY (ieee rd) = PInf"
  "d_MIN (ieee rd) = ieee_MIN" "d_MAX (ieee rd) = ieee_MAX"
  "d_sqrt (ieee rd) = ieee_sqrt rd" "d_log (ieee rd) = ieee_log rd"
  "d_exp (ieee rd) = ieee_exp rd" "d_pow (ieee rd) = ieee_pow rd"
  by (simp_all add: ieee_def)

lemma pow2_powi: "pow2 e = 2 powi e"
  by (simp add: pow2_def power_int_def power_inverse inverse_eq_divide power_one_over)

lemma pow2_pos [simp]: "0 < pow2 e"
  by (simp add: pow2_def)

lemma pow2_nonneg [simp]: "0 \<le> pow2 e"
  by (simp add: pow2_def)

lemma pow2_nonzero [simp]: "pow2 e \<noteq> 0"
  using pow2_pos [of e] by linarith

lemma pow2_Suc: "pow2 (e + 1) = 2 * pow2 e"
  by (simp add: pow2_powi power_int_add)

lemma pow2_pred: "pow2 (e - 1) = pow2 e / 2"
  using pow2_Suc [of "e - 1"] by simp

lemma b64_exponent_numeral:
  "b64_exponent (numeral k) x =
     (if 2 \<le> x then b64_exponent (pred_numeral k) (x / 2) + 1
      else if x < 1 then b64_exponent (pred_numeral k) (x * 2) - 1
      else 0)"
  by (simp add: numeral_eq_Suc)

lemma round_half_even_bounds:
  assumes "0 \<le> y"
  shows "0 \<le> round_half_even y" and "real_of_int (round_half_even y) \<le> 2 * y"
    and "y - 1 / 2 \<le> real_of_int (round_half_even y)"
proof -
  let ?f = "\<lfloor>y\<rfloor>"
  have f0: "0 \<le> ?f" using assms by simp
  have fl: "real_of_int ?f \<le> y" and fu: "y < real_of_int ?f + 1" by linarith+
  show "0 \<le> round_half_even y" using f0 by (simp add: round_half_even_def Let_def)
  show "real_of_int (round_half_even y) \<le> 2 * y"
  proof (cases "?f = 0")
    case True
    then show ?thesis using assms fl fu by (auto simp: round_half_even_def Let_def)
  next
    case False
    with f0 have "1 \<le> ?f" by linarith
    then have "1 \<le> real_of_int ?f" by simp
    with fl have "real_of_int ?f + 1 \<le> 2 * y" by linarith
    then show ?thesis using fl by (auto simp: round_half_even_def Let_def)
  qed
  show "y - 1 / 2 \<le> real_of_int (round_half_even y)"
  proof (cases "y - real_of_int ?f < 1 / 2")
    case True
    then have "round_half_even y = ?f" by (simp add: round_half_even_def Let_def)
    with True show ?thesis by linarith
  next
    case False
    have "round_half_even y = ?f \<or> round_half_even y = ?f + 1"
      by (simp add: round_half_even_def Let_def)
    moreover have "y - 1 / 2 \<le> real_of_int ?f + 1" using fu by linarith
    moreover have "y - 1 / 2 \<le> real_of_int ?f \<or> round_half_even y = ?f + 1"
      using False by (auto simp: round_half_even_def Let_def)
    ultimately show ?thesis by auto
  qed
qed

lemma b64_round_nonneg:
  assumes "0 \<le> x"
  shows "0 \<le> b64_round x" and "b64_round x \<le> 2 * x"
proof -
  show "0 \<le> b64_round x"
  proof (cases "x = 0")
    case True
    then show ?thesis by (simp add: b64_round_def)
  next
    case False
    let ?q = "pow2 (max (b64_exponent 2200 \<bar>x\<bar>) (- 1022) - 52)"
    have "0 \<le> x / ?q" using assms by (simp add: less_imp_le)
    from round_half_even_bounds(1) [OF this]
    have "0 \<le> real_of_int (round_half_even (x / ?q)) * ?q"
      by (intro mult_nonneg_nonneg) (simp_all add: less_imp_le)
    then show ?thesis using False by (simp add: b64_round_def Let_def)
  qed
  show "b64_round x \<le> 2 * x"
  proof (cases "x = 0")
    case True
    then show ?thesis by (simp add: b64_round_def)
  next
    case False
    let ?q = "pow2 (max (b64_exponent 2200 \<bar>x\<bar>) (- 1022) - 52)"
    have q: "0 < ?q" by simp
    have "0 \<le> x / ?q" using assms by (simp add: less_imp_le)
    from round_half_even_bounds(2) [OF this]
    have "real_of_int (round_half_even (x / ?q)) * ?q \<le> 2 * (x / ?q) * ?q"
      using q by (intro mult_right_mono) simp_all
    also have "\<dots> = 2 * x" using q by simp
    finally show ?thesis using False by (simp add: b64_round_def Let_def)
  qed
qed

lemma b64_exponent_le:
  "0 < x \<Longrightarrow> 1 / 2 ^ k \<le> x \<Longrightarrow> pow2 (b64_exponent k x) \<le> x"
proof (induction k arbitrary: x)
  case 0
  then show ?case by (simp add: pow2_def)
next
  case (Suc k)
  show ?case
  proof (cases "2 \<le> x")
    case True
    have "1 / 2 ^ k \<le> (1::real)" by (simp add: divide_le_eq_1)
    also have "\<dots> \<le> x / 2" using True by simp
    finally have "pow2 (b64_exponent k (x / 2)) \<le> x / 2" using Suc.prems by (intro Suc.IH) simp_all
    then show ?thesis using True by (simp add: pow2_Suc)
  next
    case False
    show ?thesis
    proof (cases "x < 1")
      case True
      have "1 / 2 ^ k \<le> x * 2" using Suc.prems(2) by (simp add: field_simps)
      then have "pow2 (b64_exponent k (x * 2)) \<le> x * 2" using Suc.prems by (intro Suc.IH) simp_all
      then show ?thesis using True False by (simp add: pow2_pred)
    next
      case False
      then show ?thesis using \<open>\<not> 2 \<le> x\<close> by (simp add: pow2_def)
    qed
  qed
qed

lemma b64_round_ge_half:
  assumes "pow2 (- 1022) \<le> x"
  shows "x / 2 \<le> b64_round x"
proof -
  have xpos: "0 < x" using assms pow2_pos [of "- 1022"] by linarith
  let ?ex = "b64_exponent 2200 \<bar>x\<bar>"
  let ?e = "max ?ex (- 1022)"
  let ?q = "pow2 (?e - 52)"
  have "(1::real) / 2 ^ 2200 \<le> 1 / 2 ^ 1022" by (simp add: frac_le)
  also have "\<dots> = pow2 (- 1022)" by (simp add: pow2_def)
  finally have "1 / 2 ^ 2200 \<le> x" using assms by linarith
  with xpos have e0: "pow2 ?ex \<le> x" using b64_exponent_le [of "\<bar>x\<bar>" 2200] by simp
  have pe: "pow2 ?e \<le> x"
  proof (cases "?ex \<le> - 1022")
    case True
    then have "?e = - 1022" by (rule max_absorb2)
    with assms show ?thesis by (simp only:)
  next
    case False
    then have "?e = ?ex" by (intro max_absorb1) simp
    with e0 show ?thesis by (simp only:)
  qed
  have q52: "?q * 2 ^ 52 = pow2 ?e"
    by (simp add: pow2_powi power_int_diff)
  have q: "0 < ?q" by simp
  have "2 ^ 52 \<le> x / ?q"
  proof -
    have "?q * 2 ^ 52 \<le> x" using pe q52 by simp
    then show ?thesis using q by (simp add: le_divide_eq mult.commute)
  qed
  moreover have "(1::real) \<le> 2 ^ 52" by simp
  ultimately have y1: "1 \<le> x / ?q" by linarith
  define y where "y = x / ?q"
  have y1': "1 \<le> y" using y1 by (simp only: y_def)
  then have ynn: "0 \<le> y" by linarith
  have "y / 2 \<le> y - 1 / 2" using y1' by linarith
  also have "\<dots> \<le> real_of_int (round_half_even y)"
    by (rule round_half_even_bounds(3) [OF ynn])
  finally have "y / 2 * ?q \<le> real_of_int (round_half_even y) * ?q"
    using q by (intro mult_right_mono) simp_all
  moreover have "y / 2 * ?q = x / 2" using q by (simp add: y_def)
  ultimately have "x / 2 \<le> real_of_int (round_half_even (x / ?q)) * ?q" by (simp only: y_def)
  then show ?thesis using xpos by (simp add: b64_round_def Let_def)
qed

lemma b64_of_real_nonneg:
  assumes "0 \<le> x" and "x \<le> B" and "2 * B < pow2 1024"
  shows "\<exists>y. b64_of_real x = Fin y \<and> 0 \<le> y \<and> y \<le> 2 * B"
proof -
  from b64_round_nonneg [OF assms(1)] assms(2)
  have "0 \<le> b64_round x" "b64_round x \<le> 2 * B" by simp_all
  moreover have "\<not> b64_round x \<le> - pow2 1024"
    using \<open>0 \<le> b64_round x\<close> pow2_pos [of 1024] by linarith
  ultimately show ?thesis using assms(3) by (simp add: b64_of_real_def Let_def)
qed

lemma b64_of_real_pos:
  assumes "pow2 (- 1022) \<le> A" and "A \<le> x" and "x \<le> B" and "2 * B < pow2 1024"
  shows "\<exists>y. b64_of_real x = Fin y \<and> A / 2 \<le> y \<and> y \<le> 2 * B"
proof -
  have x0: "0 \<le> x" using assms(1,2) pow2_pos [of "- 1022"] by linarith
  from b64_of_real_nonneg [OF x0 assms(3,4)]
  obtain y where y: "b64_of_real x = Fin y" "y \<le> 2 * B" by blast
  have "y = b64_round x" using y(1) by (auto simp: b64_of_real_def Let_def split: if_splits)
  moreover have "x / 2 \<le> b64_round x" using assms(1,2) by (intro b64_round_ge_half) linarith
  ultimately have "A / 2 \<le> y" using assms(2) by linarith
  with y show ?thesis by blast
qed

lemma b64_eval:
  "b64_of_real 0 = Fin 0" "b64_of_real 1 = Fin 1" "b64_of_real 2 = Fin 2" "b64_of_real (- 1) = Fin (- 1)"
  by (simp_all add: b64_of_real_def b64_round_def round_half_even_def pow2_def Let_def b64_exponent_numeral)

text \<open>The binary64 arithmetic: its fields, some values, and the step sizes \<^verbatim>\<open>eta\<close> and \<^verbatim>\<open>gamma\<close> of Exp3-IX, which are finite.\<close>

lemma binary64_fields [simp]:
  "d_plus binary64 = ieee_plus b64_of_real" "d_minus binary64 = ieee_minus b64_of_real"
  "d_times binary64 = ieee_times b64_of_real" "d_divide binary64 = ieee_divide b64_of_real"
  "d_uminus binary64 = ieee_uminus" "d_less binary64 = ieee_less"
  "d_less_eq binary64 = ieee_less_eq"
  "d_of_int binary64 = (\<lambda>i. b64_of_real (of_int i))"
  "d_to_int binary64 = ieee_to_int" "d_INFINITY binary64 = PInf"
  "d_MIN binary64 = ieee_MIN" "d_MAX binary64 = ieee_MAX"
  "d_sqrt binary64 = ieee_sqrt b64_of_real" "d_log binary64 = ieee_log b64_of_real"
  "d_exp binary64 = ieee_exp b64_of_real" "d_pow binary64 = ieee_pow b64_of_real"
  by (simp_all add: binary64_def)

lemmas b64_eval_simps = b64_of_real_def b64_round_def round_half_even_def pow2_def Let_def b64_exponent_numeral

lemma pow2_1024_big: "(2::real) ^ 30 < pow2 1024"
proof -
  have "(2::real) ^ 30 < 2 ^ 1024" by (rule power_strict_increasing) simp_all
  then show ?thesis by (simp only: pow2_def) simp
qed

lemma b64_small:
  assumes "0 \<le> x" and "x \<le> B" and "B \<le> 2 ^ 28"
  shows "\<exists>y. b64_of_real x = Fin y \<and> 0 \<le> y \<and> y \<le> 2 * B"
proof -
  have "2 * B \<le> 2 ^ 29" using assms(3) by simp
  also have "\<dots> < (2::real) ^ 30" by simp
  finally have "2 * B < pow2 1024" using pow2_1024_big by linarith
  from b64_of_real_nonneg [OF assms(1,2) this] show ?thesis .
qed

lemma b64_gamma_bounds:
  assumes n: "1 \<le> n" "n \<le> 1000" and t: "1 \<le> t"
    and N: "b64_of_real (real n) = Fin (real n)" and T: "b64_of_real (real t) = Fin (real t)"
    and two: "b64_of_real 2 = Fin 2"
  shows "\<exists>e g. d_sqrt binary64 (d_divide binary64 (d_divide binary64
                  (d_times binary64 (d_of_int binary64 2) (d_log binary64 (d_of_int binary64 (int n))))
                  (d_of_int binary64 (int n))) (d_of_int binary64 (int t))) = Fin e \<and> 0 \<le> e \<and>
           d_divide binary64 (Fin e) (d_of_int binary64 2) = Fin g \<and> 0 \<le> g \<and> g \<le> 2 ^ 20"
proof -
  have n1: "1 \<le> real n" and nle: "real n \<le> 1000" using n by simp_all
  have t1: "1 \<le> real t" using t by simp
  have ln0: "0 \<le> ln (real n)" using n1 by simp
  have lnle: "ln (real n) \<le> 1000" using ln_le_minus_one [of "real n"] n1 nle by linarith
  from b64_small [OF ln0 lnle] obtain L where L: "b64_of_real (ln (real n)) = Fin L" "0 \<le> L" "L \<le> 2000"
    by auto
  have "0 \<le> 2 * L" "2 * L \<le> 4000" using L by simp_all
  from b64_small [OF this] obtain a1 where a1: "b64_of_real (2 * L) = Fin a1" "0 \<le> a1" "a1 \<le> 8000"
    by auto
  have "0 \<le> a1 / real n" "a1 / real n \<le> 8000"
    using a1 n1 by (simp_all add: divide_le_eq)
  from b64_small [OF this] obtain a2 where a2: "b64_of_real (a1 / real n) = Fin a2" "0 \<le> a2" "a2 \<le> 16000"
    by auto
  have "0 \<le> a2 / real t" "a2 / real t \<le> 16000"
    using a2 t1 by (simp_all add: divide_le_eq)
  from b64_small [OF this] obtain a3 where a3: "b64_of_real (a2 / real t) = Fin a3" "0 \<le> a3" "a3 \<le> 32000"
    by auto
  have s0: "0 \<le> sqrt a3" using a3 by simp
  have "a3 \<le> (a3 + 1)\<^sup>2" using a3 by (simp add: power2_eq_square algebra_simps)
  then have "sqrt a3 \<le> a3 + 1" using a3 by (intro real_le_lsqrt) simp_all
  then have sle: "sqrt a3 \<le> 32001" using a3 by linarith
  from b64_small [OF s0 sle] obtain e where e: "b64_of_real (sqrt a3) = Fin e" "0 \<le> e" "e \<le> 64002"
    by auto
  have "0 \<le> e / 2" "e / 2 \<le> 32001" using e by simp_all
  from b64_small [OF this] obtain g where g: "b64_of_real (e / 2) = Fin g" "0 \<le> g" "g \<le> 64002"
    by auto
  have npos: "\<not> real n < 0" "real n \<noteq> 0" "real t \<noteq> 0" using n1 t1 by simp_all
  have "d_sqrt binary64 (d_divide binary64 (d_divide binary64
                  (d_times binary64 (d_of_int binary64 2) (d_log binary64 (d_of_int binary64 (int n))))
                  (d_of_int binary64 (int n))) (d_of_int binary64 (int t))) = Fin e"
    using npos a3(2) by (simp add: N T two L a1 a2 a3 e not_less)
  moreover have "d_divide binary64 (Fin e) (d_of_int binary64 2) = Fin g"
    by (simp add: two g)
  moreover have "g \<le> 2 ^ 20" using g(3) by simp
  ultimately show ?thesis using e(2) g(2) by blast
qed


lemma b64_ints:
  "b64_of_real 0 = Fin 0" "b64_of_real 1 = Fin 1" "b64_of_real 2 = Fin 2" "b64_of_real 3 = Fin 3"
  "b64_of_real 4 = Fin 4" "b64_of_real 5 = Fin 5" "b64_of_real 6 = Fin 6"
  by (simp_all add: b64_eval_simps)








section \<open>Properties of the selectors that read the mask\<close>










section \<open>Properties of the weight-based bandits\<close>

text \<open>The three loops of \<^verbatim>\<open>expix_add_reward\<close> in closed form.\<close>

lemma expix_min_loop_foldl:
  "i \<le> n \<Longrightarrow> n \<le> length losses \<Longrightarrow>
   expix_min_loop ar losses n i m = foldl (d_MIN ar) m (drop i (take n losses))"
proof (induction ar losses n i m rule: expix_min_loop.induct)
  case (1 ar losses n i min_loss)
  show ?case
  proof (cases "i < n")
    case True
    then have d: "drop i (take n losses) = losses ! i # drop (i + 1) (take n losses)"
      using "1.prems" by (metis Cons_nth_drop_Suc Suc_eq_plus1 length_take min.absorb2 nth_take)
    from "1.IH" [OF True] True "1.prems" show ?thesis
      by (subst expix_min_loop.simps) (simp add: d)
  next
    case False
    with "1.prems" show ?thesis by (subst expix_min_loop.simps) simp
  qed
qed

lemma expix_exp_loop_closed:
  "f = (\<lambda>j. d_exp ar (d_times ar (d_uminus ar eta) (d_minus ar (losses ! j) min_loss))) \<Longrightarrow>
   i \<le> n \<Longrightarrow> n \<le> length weights \<Longrightarrow>
   expix_exp_loop ar eta min_loss losses n i weights denom =
     (take i weights @ map f [i..<n] @ drop n weights, foldl (d_plus ar) denom (map f [i..<n]))"
proof (induction ar eta min_loss losses n i weights denom rule: expix_exp_loop.induct)
  case (1 ar eta min_loss losses n i weights denom)
  note f = "1.prems"(1)
  show ?case
  proof (cases "i < n")
    case True
    let ?ws = "weights[i := f i]"
    have il: "i < length weights" using True "1.prems" by simp
    have fi: "d_exp ar (d_times ar (d_uminus ar eta) (d_minus ar (losses ! i) min_loss)) = f i"
      by (simp add: f)
    have nth: "?ws ! i = f i" using il by simp
    have up: "[i..<n] = i # [Suc i..<n]" using True by (simp add: upt_conv_Cons)
    have tk: "take (Suc i) ?ws = take i weights @ [f i]" using il by (simp add: take_Suc_conv_app_nth)
    have dr: "drop n ?ws = drop n weights" using True by simp
    have len: "Suc i \<le> n" "n \<le> length ?ws" using True "1.prems" by simp_all
    have step: "expix_exp_loop ar eta min_loss losses n i weights denom =
        expix_exp_loop ar eta min_loss losses n (Suc i) ?ws (d_plus ar denom (f i))"
      using True by (subst expix_exp_loop.simps) (simp add: Let_def fi nth)
    have "expix_exp_loop ar eta min_loss losses n (i + 1) ?ws (d_plus ar denom (?ws ! i)) =
       (take (i + 1) ?ws @ map f [i + 1..<n] @ drop n ?ws,
        foldl (d_plus ar) (d_plus ar denom (?ws ! i)) (map f [i + 1..<n]))"
      using len by (intro "1.IH" [OF True, unfolded fi] f) simp_all
    then have "expix_exp_loop ar eta min_loss losses n (Suc i) ?ws (d_plus ar denom (f i)) =
       (take i weights @ f i # map f [Suc i..<n] @ drop n weights,
        foldl (d_plus ar) (d_plus ar denom (f i)) (map f [Suc i..<n]))"
      by (simp add: nth tk dr)
    with step show ?thesis by (simp add: up del: upt.simps)
  next
    case False
    with "1.prems" show ?thesis by (subst expix_exp_loop.simps) simp
  qed
qed

lemma expix_div_loop_closed:
  "i \<le> n \<Longrightarrow> n \<le> length weights \<Longrightarrow>
   expix_div_loop ar denom n i weights =
     take i weights @ map (\<lambda>j. d_divide ar (weights ! j) denom) [i..<n] @ drop n weights"
proof (induction ar denom n i weights rule: expix_div_loop.induct)
  case (1 ar denom n i weights)
  show ?case
  proof (cases "i < n")
    case True
    let ?w = "d_divide ar (weights ! i) denom"
    let ?ws = "weights[i := ?w]"
    have il: "i < length weights" using True "1.prems" by simp
    have up: "[i..<n] = i # [Suc i..<n]" using True by (simp add: upt_conv_Cons)
    have tk: "take (Suc i) ?ws = take i weights @ [?w]" using il by (simp add: take_Suc_conv_app_nth)
    have dr: "drop n ?ws = drop n weights" using True by simp
    have mp: "map (\<lambda>j. d_divide ar (?ws ! j) denom) [Suc i..<n] = map (\<lambda>j. d_divide ar (weights ! j) denom) [Suc i..<n]"
      by (rule map_cong) simp_all
    have len: "Suc i \<le> n" "n \<le> length ?ws" using True "1.prems" by simp_all
    have step: "expix_div_loop ar denom n i weights = expix_div_loop ar denom n (Suc i) ?ws"
      using True by (subst expix_div_loop.simps) simp
    have "expix_div_loop ar denom n (i + 1) ?ws =
        take (i + 1) ?ws @ map (\<lambda>j. d_divide ar (?ws ! j) denom) [i + 1..<n] @ drop n ?ws"
      using len by (intro "1.IH" [OF True]) simp_all
    then have "expix_div_loop ar denom n (Suc i) ?ws =
        take i weights @ ?w # map (\<lambda>j. d_divide ar (weights ! j) denom) [Suc i..<n] @ drop n weights"
      by (simp add: tk dr mp)
    with step show ?thesis by (simp add: up del: upt.simps)
  next
    case False
    with "1.prems" show ?thesis by (subst expix_div_loop.simps) simp
  qed
qed


lemma foldl_plus_sum_list: "foldl (+) (a::real) xs = a + sum_list xs"
  by (induction xs arbitrary: a) simp_all




lemma exact_fields [simp]:
  "d_plus exact_arithmetic = ieee_plus Fin" "d_minus exact_arithmetic = ieee_minus Fin"
  "d_times exact_arithmetic = ieee_times Fin" "d_divide exact_arithmetic = ieee_divide Fin"
  "d_uminus exact_arithmetic = ieee_uminus" "d_less exact_arithmetic = ieee_less"
  "d_of_int exact_arithmetic = (\<lambda>i. Fin (of_int i))"
  "d_to_int exact_arithmetic = ieee_to_int" "d_INFINITY exact_arithmetic = PInf"
  "d_MIN exact_arithmetic = ieee_MIN"
  "d_sqrt exact_arithmetic = ieee_sqrt Fin" "d_log exact_arithmetic = ieee_log Fin"
  "d_exp exact_arithmetic = ieee_exp Fin"
  by (simp_all add: exact_arithmetic_def)





lemma expix_add_reward_closed:
  fixes ar :: "'d double_ops" and self :: "'d expix" and arm :: nat and reward :: 'd
  assumes "ix_n_arms self \<le> length (ix_weights self)" and "ix_n_arms self \<le> length (ix_losses self)"
  defines "K \<equiv> ix_n_arms self"
  defines "eta \<equiv> d_sqrt ar (d_divide ar (d_divide ar
                  (d_times ar (d_of_int ar 2) (d_log ar (d_of_int ar (int K))))
                  (d_of_int ar (int K))) (d_of_int ar (int (ix_t self))))"
  defines "l \<equiv> (ix_losses self)[arm := d_plus ar (ix_losses self ! arm)
                   (d_divide ar (d_minus ar (d_of_int ar 1) reward)
                      (d_plus ar (ix_weights self ! arm) (d_divide ar eta (d_of_int ar 2))))]"
  defines "m \<equiv> foldl (d_MIN ar) (d_INFINITY ar) (take K l)"
  defines "w \<equiv> (\<lambda>i. d_exp ar (d_times ar (d_uminus ar eta) (d_minus ar (l ! i) m)))"
  defines "denom \<equiv> foldl (d_plus ar) (d_of_int ar 0) (map w [0..<K])"
  shows "expix_add_reward ar self arm reward =
     self\<lparr>ix_total_rewards := (ix_total_rewards self)[arm := ix_total_rewards self ! arm + d_to_int ar reward],
          ix_losses := l,
          ix_weights := map (\<lambda>i. d_divide ar (w i) denom) [0..<K] @ drop K (ix_weights self)\<rparr>"
proof -
  have Kl: "K \<le> length l" using assms(2) by (simp add: K_def l_def)
  have Kw: "K \<le> length (ix_weights self)" using assms(1) by (simp add: K_def)
  have min: "expix_min_loop ar l K 0 (d_INFINITY ar) = m"
    using expix_min_loop_foldl [of 0 K l ar "d_INFINITY ar"] Kl by (simp add: m_def)
  have ex: "expix_exp_loop ar eta m l K 0 (ix_weights self) (d_of_int ar 0) =
      (map w [0..<K] @ drop K (ix_weights self), denom)"
    using expix_exp_loop_closed [of w ar eta l m 0 K "ix_weights self" "d_of_int ar 0"] Kw
    by (simp add: w_def denom_def)
  have len: "K \<le> length (map w [0..<K] @ drop K (ix_weights self))" by simp
  have mp: "map (\<lambda>j. d_divide ar ((map w [0..<K] @ drop K (ix_weights self)) ! j) denom) [0..<K] =
      map (\<lambda>i. d_divide ar (w i) denom) [0..<K]"
    by (rule map_cong) (simp_all add: nth_append)
  have dv: "expix_div_loop ar denom K 0 (map w [0..<K] @ drop K (ix_weights self)) =
      map (\<lambda>i. d_divide ar (w i) denom) [0..<K] @ drop K (ix_weights self)"
    using expix_div_loop_closed [OF _ len, of 0 ar denom] by (simp add: mp)
  show ?thesis
    unfolding expix_add_reward_def Let_def K_def [symmetric] eta_def [symmetric] l_def [symmetric]
    by (simp add: min ex dv)
qed






text \<open>
  Two instances used below, in binary64: a fresh one with two arms, and the one the
  selector leaves after its first call with \<open>target = 1/4\<close>.  A reward of 0 raises the loss
  of the arm.
\<close>

lemma b64_half: "b64_of_real (1 / 2) = Fin (1 / 2)" "b64_of_real (1 / 4) = Fin (1 / 4)"
  by (simp_all add: b64_eval_simps)

lemma scan_half:
  "scan_distribution binary64 [Fin (1 / 2), Fin (1 / 2)] 2 (Fin (1 / 4)) 0 (Fin 0) = Some 0"
  using b64_half by (subst scan_distribution.simps) simp

lemma expix_select_first:
  "expix_select_arm binary64 (Fin (1 / 4))
     \<lparr>ix_n_arms = 2, ix_t = 0, ix_weights = [Fin (1 / 2), Fin (1 / 2)], ix_losses = [Fin 0, Fin 0],
      ix_pulls = [0, 0], ix_total_rewards = [0, 0]\<rparr> msk =
   (0, \<lparr>ix_n_arms = 2, ix_t = 1, ix_weights = [Fin (1 / 2), Fin (1 / 2)], ix_losses = [Fin 0, Fin 0],
        ix_pulls = [1, 0], ix_total_rewards = [0, 0]\<rparr>)"
  by (simp add: expix_select_arm_def scan_half b64_ints)

lemma expix_loss_positive:
  "ix_losses (expix_add_reward binary64
     \<lparr>ix_n_arms = 2, ix_t = 1, ix_weights = [Fin (1 / 2), Fin (1 / 2)], ix_losses = [Fin 0, Fin 0],
      ix_pulls = [1, 0], ix_total_rewards = [0, 0]\<rparr> 0 (Fin 0)) ! 0 \<noteq> Fin 0"
proof -
  let ?self = "\<lparr>ix_n_arms = 2, ix_t = 1, ix_weights = [Fin (1 / 2), Fin (1 / 2)], ix_losses = [Fin 0, Fin 0],
      ix_pulls = [1, 0], ix_total_rewards = [0, 0 :: int]\<rparr>"
  from b64_gamma_bounds [of 2 1] b64_ints
  obtain e g where e: "d_sqrt binary64 (d_divide binary64 (d_divide binary64
                  (d_times binary64 (d_of_int binary64 2) (d_log binary64 (d_of_int binary64 (int 2))))
                  (d_of_int binary64 (int 2))) (d_of_int binary64 (int 1))) = Fin e"
    and g: "d_divide binary64 (Fin e) (d_of_int binary64 2) = Fin g" "0 \<le> g" "g \<le> 2 ^ 20"
    by auto
  have big: "2 * (1 + 2 ^ 20) < pow2 1024" using pow2_1024_big by simp
  have low: "pow2 (- 1022) \<le> 1 / 2 ^ 30" "pow2 (- 1022) \<le> 1 / 2" "pow2 (- 1022) \<le> 1 / 2 ^ 31"
  proof -
    have "(1::real) / 2 ^ 1022 \<le> 1 / 2 ^ 31" by (intro divide_left_mono power_increasing) simp_all
    then have "pow2 (- 1022) \<le> 1 / 2 ^ 31" by (simp only: pow2_def) simp
    then show "pow2 (- 1022) \<le> 1 / 2 ^ 30" "pow2 (- 1022) \<le> 1 / 2" "pow2 (- 1022) \<le> 1 / 2 ^ 31"
      by simp_all
  qed
  have h1: "(1::real) / 2 \<le> 1 / 2 + g" using g(2) by simp
  have h2: "1 / 2 + g \<le> 1 + 2 ^ 20" using g(3) by simp
  from b64_of_real_pos [OF low(2) h1 h2 big]
  obtain y where y: "b64_of_real (1 / 2 + g) = Fin y" "1 / 2 / 2 \<le> y" "y \<le> 2 * (1 + 2 ^ 20)" by blast
  have ypos: "0 < y" using y(2) by simp
  have i1: "(1::real) / 2 ^ 30 \<le> 1 / y"
  proof -
    have "y \<le> 2 ^ 30" using y(3) by simp
    then show ?thesis using ypos by (simp add: field_simps)
  qed
  have i2: "1 / y \<le> 1 + 2 ^ 20"
  proof -
    have "1 / y \<le> 1 / (1 / 2 / 2)" using y(2) by (intro divide_left_mono) simp_all
    also have "\<dots> \<le> 1 + 2 ^ 20" by simp
    finally show ?thesis .
  qed
  from b64_of_real_pos [OF low(1) i1 i2 big]
  obtain z where z: "b64_of_real (1 / y) = Fin z" "1 / 2 ^ 30 / 2 \<le> z" "z \<le> 2 * (1 + 2 ^ 20)" by blast
  have j1: "(1::real) / 2 ^ 31 \<le> 0 + z" using z(2) by simp
  have j2: "0 + z \<le> 2 * (1 + 2 ^ 20)" using z(3) by simp
  have big2: "2 * (2 * (1 + 2 ^ 20)) < pow2 1024" using pow2_1024_big by simp
  from b64_of_real_pos [OF low(3) j1 j2 big2]
  obtain z' where z': "b64_of_real (0 + z) = Fin z'" "1 / 2 ^ 31 / 2 \<le> z'" by blast
  have z'pos: "z' \<noteq> 0" using z'(2) by simp
  have "ix_losses (expix_add_reward binary64 ?self 0 (Fin 0)) ! 0 = Fin z'"
    using e g(1) y(1) ypos z(1) z'(1)
    by (subst expix_add_reward_closed) (simp_all add: b64_ints ieee_minus_def)
  with z'pos show ?thesis by simp
qed

section \<open>Properties of the bandit protocol\<close>




text \<open>
  Claim C4, as stated, fails on the masked-pick path of the Exp3 builds: in the iteration
  below (in binary64) the operator bandit picks the masked arm 0 and is given reward 0 (its
  loss for arm 0 becomes non-zero), while the batch-size bandits are left exactly as they
  were, and a reward of 0 would have changed them.
\<close>

theorem havoc_rewards_counterexample:
  "used_bucket (fst (havoc_iteration \<lparr>SELECT_ARM_MUT = expix_select_arm binary64 (Fin (1 / 4)), ADD_REWARD_MUT = (\<lambda>b a r. expix_add_reward binary64 b a (d_of_int binary64 (int r))),
        SELECT_ARM_BATCH = expix_select_arm binary64 (Fin (1 / 4)), ADD_REWARD_BATCH = (\<lambda>b a r. expix_add_reward binary64 b a (d_of_int binary64 (int r))),
        MUT_ALG_exp = True, BATCHSIZE_BANDIT = True, BATCH_NUM_ARM = 7\<rparr> 16 [1, 0] 0 (\<lambda>c s. (False, 1))
        \<lparr>mut_bandit = \<lparr>ix_n_arms = 2, ix_t = 0, ix_weights = [Fin (1 / 2), Fin (1 / 2)], ix_losses = [Fin 0, Fin 0], ix_pulls = [0, 0], ix_total_rewards = [0, 0]\<rparr>,
        used_bucket = (\<lambda>c. \<lparr>ix_n_arms = 2, ix_t = 1, ix_weights = [Fin (1 / 2), Fin (1 / 2)], ix_losses = [Fin 0, Fin 0], ix_pulls = [1, 0], ix_total_rewards = [0, 0]\<rparr>),
        havoc_queued = 0, perf_score = 100, stage_max = 16, total_havocs = 0\<rparr>)) =
     used_bucket \<lparr>mut_bandit = \<lparr>ix_n_arms = 2, ix_t = 0, ix_weights = [Fin (1 / 2), Fin (1 / 2)], ix_losses = [Fin 0, Fin 0], ix_pulls = [0, 0], ix_total_rewards = [0, 0]\<rparr>,
        used_bucket = (\<lambda>c. \<lparr>ix_n_arms = 2, ix_t = 1, ix_weights = [Fin (1 / 2), Fin (1 / 2)], ix_losses = [Fin 0, Fin 0], ix_pulls = [1, 0], ix_total_rewards = [0, 0]\<rparr>),
        havoc_queued = 0, perf_score = 100, stage_max = 16, total_havocs = 0\<rparr> \<and>
   mut_bandit (fst (havoc_iteration \<lparr>SELECT_ARM_MUT = expix_select_arm binary64 (Fin (1 / 4)), ADD_REWARD_MUT = (\<lambda>b a r. expix_add_reward binary64 b a (d_of_int binary64 (int r))),
        SELECT_ARM_BATCH = expix_select_arm binary64 (Fin (1 / 4)), ADD_REWARD_BATCH = (\<lambda>b a r. expix_add_reward binary64 b a (d_of_int binary64 (int r))),
        MUT_ALG_exp = True, BATCHSIZE_BANDIT = True, BATCH_NUM_ARM = 7\<rparr> 16 [1, 0] 0 (\<lambda>c s. (False, 1))
        \<lparr>mut_bandit = \<lparr>ix_n_arms = 2, ix_t = 0, ix_weights = [Fin (1 / 2), Fin (1 / 2)], ix_losses = [Fin 0, Fin 0], ix_pulls = [0, 0], ix_total_rewards = [0, 0]\<rparr>,
        used_bucket = (\<lambda>c. \<lparr>ix_n_arms = 2, ix_t = 1, ix_weights = [Fin (1 / 2), Fin (1 / 2)], ix_losses = [Fin 0, Fin 0], ix_pulls = [1, 0], ix_total_rewards = [0, 0]\<rparr>),
        havoc_queued = 0, perf_score = 100, stage_max = 16, total_havocs = 0\<rparr>)) =
     expix_add_reward binary64 \<lparr>ix_n_arms = 2, ix_t = 1, ix_weights = [Fin (1 / 2), Fin (1 / 2)], ix_losses = [Fin 0, Fin 0], ix_pulls = [1, 0], ix_total_rewards = [0, 0]\<rparr> 0 (Fin 0) \<and>
   ix_losses (expix_add_reward binary64 \<lparr>ix_n_arms = 2, ix_t = 1, ix_weights = [Fin (1 / 2), Fin (1 / 2)], ix_losses = [Fin 0, Fin 0], ix_pulls = [1, 0], ix_total_rewards = [0, 0]\<rparr> 0 (Fin 0)) ! 0 \<noteq>
     ix_losses \<lparr>ix_n_arms = 2, ix_t = 1, ix_weights = [Fin (1 / 2), Fin (1 / 2)], ix_losses = [Fin 0, Fin 0], ix_pulls = [1, 0], ix_total_rewards = [0, 0]\<rparr> ! 0"
  using expix_loss_positive
  by (simp add: havoc_iteration_def Let_def expix_select_first b64_ints)

text \<open>
  Claim C4, amended.  In a build with both bandits, every havoc iteration that reaches the
  executor updates the operator-selector bandit (arm \<^verbatim>\<open>selected_case\<close>) and the batch-size
  bandit of that operator (arm \<^verbatim>\<open>selected_t\<close>) with one and the same reward: 0 when the
  executor signalled abandon, else 1 if \<^verbatim>\<open>afl->queued_paths\<close> differs from \<^verbatim>\<open>havoc_queued\<close>,
  else 0.  An iteration on the masked-pick path of the Exp3 builds reaches no executor: it
  gives reward 0 to the operator-selector bandit only.
\<close>

theorem havoc_iteration_rewards:
  assumes "BATCHSIZE_BANDIT bb"
  shows "(let sel = SELECT_ARM_MUT bb (mut_bandit st) (Some msk);
              selected_case = fst sel;
              selb = SELECT_ARM_BATCH bb (used_bucket st selected_case) None;
              selected_t = fst selb;
              res = run selected_case (if BATCH_NUM_ARM bb = 7 then 2 ^ selected_t else 1 + selected_t);
              reward = (if fst res then 0 else if snd res \<noteq> havoc_queued st then 1 else 0);
              st' = fst (havoc_iteration bb havoc_max_mult msk rnd_t run st)
          in if MUT_ALG_exp bb \<and> msk ! selected_case \<noteq> 0
             then mut_bandit st' = ADD_REWARD_MUT bb (snd sel) selected_case 0 \<and>
                  used_bucket st' = used_bucket st
             else mut_bandit st' = ADD_REWARD_MUT bb (snd sel) selected_case reward \<and>
                  used_bucket st' selected_case = ADD_REWARD_BATCH bb (snd selb) selected_t reward)"
  using assms by (simp add: havoc_iteration_def Let_def)

theorem havoc_iteration_rewards_witness:
  "BATCHSIZE_BANDIT \<lparr>SELECT_ARM_MUT = expix_select_arm binary64 (Fin (1 / 4)), ADD_REWARD_MUT = (\<lambda>b a r. expix_add_reward binary64 b a (d_of_int binary64 (int r))),
        SELECT_ARM_BATCH = expix_select_arm binary64 (Fin (1 / 4)), ADD_REWARD_BATCH = (\<lambda>b a r. expix_add_reward binary64 b a (d_of_int binary64 (int r))),
        MUT_ALG_exp = True, BATCHSIZE_BANDIT = True, BATCH_NUM_ARM = 7\<rparr> \<and>
   mut_bandit (fst (havoc_iteration \<lparr>SELECT_ARM_MUT = expix_select_arm binary64 (Fin (1 / 4)), ADD_REWARD_MUT = (\<lambda>b a r. expix_add_reward binary64 b a (d_of_int binary64 (int r))),
        SELECT_ARM_BATCH = expix_select_arm binary64 (Fin (1 / 4)), ADD_REWARD_BATCH = (\<lambda>b a r. expix_add_reward binary64 b a (d_of_int binary64 (int r))),
        MUT_ALG_exp = True, BATCHSIZE_BANDIT = True, BATCH_NUM_ARM = 7\<rparr> 16 [0, 0] 0 (\<lambda>c s. (False, 1))
        \<lparr>mut_bandit = \<lparr>ix_n_arms = 2, ix_t = 0, ix_weights = [Fin (1 / 2), Fin (1 / 2)], ix_losses = [Fin 0, Fin 0], ix_pulls = [0, 0], ix_total_rewards = [0, 0]\<rparr>,
        used_bucket = (\<lambda>c. \<lparr>ix_n_arms = 2, ix_t = 1, ix_weights = [Fin (1 / 2), Fin (1 / 2)], ix_losses = [Fin 0, Fin 0], ix_pulls = [1, 0], ix_total_rewards = [0, 0]\<rparr>),
        havoc_queued = 0, perf_score = 100, stage_max = 16, total_havocs = 0\<rparr>)) =
     expix_add_reward binary64 \<lparr>ix_n_arms = 2, ix_t = 1, ix_weights = [Fin (1 / 2), Fin (1 / 2)], ix_losses = [Fin 0, Fin 0], ix_pulls = [1, 0], ix_total_rewards = [0, 0]\<rparr> 0 (Fin 1) \<and>
   used_bucket (fst (havoc_iteration \<lparr>SELECT_ARM_MUT = expix_select_arm binary64 (Fin (1 / 4)), ADD_REWARD_MUT = (\<lambda>b a r. expix_add_reward binary64 b a (d_of_int binary64 (int r))),
        SELECT_ARM_BATCH = expix_select_arm binary64 (Fin (1 / 4)), ADD_REWARD_BATCH = (\<lambda>b a r. expix_add_reward binary64 b a (d_of_int binary64 (int r))),
        MUT_ALG_exp = True, BATCHSIZE_BANDIT = True, BATCH_NUM_ARM = 7\<rparr> 16 [0, 0] 0 (\<lambda>c s. (False, 1))
        \<lparr>mut_bandit = \<lparr>ix_n_arms = 2, ix_t = 0, ix_weights = [Fin (1 / 2), Fin (1 / 2)], ix_losses = [Fin 0, Fin 0], ix_pulls = [0, 0], ix_total_rewards = [0, 0]\<rparr>,
        used_bucket = (\<lambda>c. \<lparr>ix_n_arms = 2, ix_t = 1, ix_weights = [Fin (1 / 2), Fin (1 / 2)], ix_losses = [Fin 0, Fin 0], ix_pulls = [1, 0], ix_total_rewards = [0, 0]\<rparr>),
        havoc_queued = 0, perf_score = 100, stage_max = 16, total_havocs = 0\<rparr>)) 0 =
     expix_add_reward binary64
       (snd (expix_select_arm binary64 (Fin (1 / 4)) \<lparr>ix_n_arms = 2, ix_t = 1, ix_weights = [Fin (1 / 2), Fin (1 / 2)], ix_losses = [Fin 0, Fin 0], ix_pulls = [1, 0], ix_total_rewards = [0, 0]\<rparr> None))
       (fst (expix_select_arm binary64 (Fin (1 / 4)) \<lparr>ix_n_arms = 2, ix_t = 1, ix_weights = [Fin (1 / 2), Fin (1 / 2)], ix_losses = [Fin 0, Fin 0], ix_pulls = [1, 0], ix_total_rewards = [0, 0]\<rparr> None)) (Fin 1)"
  using havoc_iteration_rewards [of "\<lparr>SELECT_ARM_MUT = expix_select_arm binary64 (Fin (1 / 4)), ADD_REWARD_MUT = (\<lambda>b a r. expix_add_reward binary64 b a (d_of_int binary64 (int r))),
        SELECT_ARM_BATCH = expix_select_arm binary64 (Fin (1 / 4)), ADD_REWARD_BATCH = (\<lambda>b a r. expix_add_reward binary64 b a (d_of_int binary64 (int r))),
        MUT_ALG_exp = True, BATCHSIZE_BANDIT = True, BATCH_NUM_ARM = 7\<rparr>"
      "\<lparr>mut_bandit = \<lparr>ix_n_arms = 2, ix_t = 0, ix_weights = [Fin (1 / 2), Fin (1 / 2)], ix_losses = [Fin 0, Fin 0], ix_pulls = [0, 0], ix_total_rewards = [0, 0]\<rparr>,
        used_bucket = (\<lambda>c. \<lparr>ix_n_arms = 2, ix_t = 1, ix_weights = [Fin (1 / 2), Fin (1 / 2)], ix_losses = [Fin 0, Fin 0], ix_pulls = [1, 0], ix_total_rewards = [0, 0]\<rparr>),
        havoc_queued = 0, perf_score = 100, stage_max = 16, total_havocs = 0\<rparr>" "[0, 0]" "\<lambda>c s. (False, 1)" 16 0]
  by (simp add: Let_def expix_select_first b64_ints)

section \<open>ADWIN: the window invariant\<close>

text \<open>
  The number of samples and the total of the windows, under the changes the code makes to
  the list of nodes: a window added to a node, two windows merged into the next node, the
  oldest window of the tail expired.
\<close>

lemma bucket_count_append:
  "bucket_count k (xs @ [node]) = bucket_count k xs + length node * 2 ^ (k + length xs)"
  by (induction xs arbitrary: k) simp_all

lemma bucket_count_update:
  "i < length xs \<Longrightarrow>
   bucket_count k (xs[i := node]) + length (xs ! i) * 2 ^ (k + i) =
   bucket_count k xs + length node * 2 ^ (k + i)"
proof (induction xs arbitrary: k i)
  case Nil
  then show ?case by simp
next
  case (Cons x xs)
  show ?case
  proof (cases i)
    case 0
    then show ?thesis by simp
  next
    case (Suc j)
    with Cons.prems have "j < length xs" by simp
    from Cons.IH [OF this, of "k + 1"] Suc show ?thesis by simp
  qed
qed

lemma bucket_count_ge_nth:
  "i < length xs \<Longrightarrow> length (xs ! i) * 2 ^ (k + i) \<le> bucket_count k xs"
proof (induction xs arbitrary: k i)
  case Nil
  then show ?case by simp
next
  case (Cons x xs)
  show ?case
  proof (cases i)
    case 0
    then show ?thesis by simp
  next
    case (Suc j)
    with Cons.prems have "j < length xs" by simp
    from Cons.IH [OF this, of "k + 1"] Suc show ?thesis by (simp add: trans_le_add2)
  qed
qed

lemma bucket_total_append: "bucket_total (xs @ [node]) = bucket_total xs + sum_list node"
  by (simp add: bucket_total_def)

lemma bucket_total_update:
  "i < length xs \<Longrightarrow> bucket_total (xs[i := node]) = bucket_total xs - sum_list (xs ! i) + sum_list node"
proof (induction xs arbitrary: i)
  case Nil
  then show ?case by simp
next
  case (Cons x xs)
  show ?case
  proof (cases i)
    case 0
    then show ?thesis by (simp add: bucket_total_def)
  next
    case (Suc j)
    with Cons.prems have "j < length xs" by simp
    from Cons.IH [OF this] Suc show ?thesis by (simp add: bucket_total_def)
  qed
qed

lemma bucket_count_butlast:
  "xs \<noteq> [] \<Longrightarrow> bucket_count k xs = bucket_count k (butlast xs) + length (last xs) * 2 ^ (k + (length xs - 1))"
  using bucket_count_append [of k "butlast xs" "last xs"] by simp

lemma bucket_total_butlast:
  "xs \<noteq> [] \<Longrightarrow> bucket_total xs = bucket_total (butlast xs) + sum_list (last xs)"
  using bucket_total_append [of "butlast xs" "last xs"] by simp


lemma sum_list_drop2: "2 \<le> length (node :: u64 list) \<Longrightarrow> sum_list (drop 2 node) = sum_list node - (node ! 0 + node ! 1)"
proof -
  assume "2 \<le> length node"
  then obtain x y rest where "node = x # y # rest"
    by (cases node; cases "tl node") auto
  then show ?thesis by simp
qed

lemma bucket_count_grow:
  assumes "i < length xs" and "length X = length (xs ! i) + 1"
  shows "bucket_count 0 (xs[i := X]) = bucket_count 0 xs + 2 ^ i"
proof -
  from bucket_count_update [OF assms(1), of 0 X] assms(2)
  have "bucket_count 0 (xs[i := X]) + length (xs ! i) * 2 ^ i =
        bucket_count 0 xs + 2 ^ i + length (xs ! i) * 2 ^ i"
    by (simp add: algebra_simps)
  then show ?thesis by simp
qed

lemma bucket_count_shrink2:
  assumes "i < length xs" and "2 \<le> length (xs ! i)"
  shows "bucket_count 0 (xs[i := drop 2 (xs ! i)]) + 2 ^ (i + 1) = bucket_count 0 xs"
proof -
  obtain n where n: "length (xs ! i) = n + 2" using assms(2) by (metis add.commute le_Suc_ex)
  from bucket_count_update [OF assms(1), of 0 "drop 2 (xs ! i)"] n
  have "bucket_count 0 (xs[i := drop 2 (xs ! i)]) + (n + 2) * 2 ^ i = bucket_count 0 xs + n * 2 ^ i"
    by simp
  then show ?thesis by (simp add: algebra_simps)
qed

lemma bucket_total_grow:
  "i < length xs \<Longrightarrow> bucket_total (xs[i := adwin_add_tail_window (xs ! i) s]) = bucket_total xs + s"
  by (simp add: bucket_total_update adwin_add_tail_window_def)

lemma bucket_total_shrink2:
  "i < length xs \<Longrightarrow> 2 \<le> length (xs ! i) \<Longrightarrow>
   bucket_total (xs[i := drop 2 (xs ! i)]) = bucket_total xs - (xs ! i ! 0 + xs ! i ! 1)"
  by (simp add: bucket_total_update sum_list_drop2)

lemma norm_step:
  assumes M: "2 \<le> ADWIN_M c" and inv: "adwin_mid_inv c k a" and k: "k < length (adw_nodes a)"
    and big: "ADWIN_M c < length (adw_nodes a ! k)"
  defines "node \<equiv> adw_nodes a ! k"
  defines "a1 \<equiv> (if k + 1 < length (adw_nodes a) then a else adwin_add_tail_node a)"
  defines "a2 \<equiv> a1\<lparr>adw_nodes := (adw_nodes a1)
              [k + 1 := adwin_add_tail_window (adw_nodes a1 ! (k + 1)) (node ! 0 + node ! 1),
               k := drop 2 node]\<rparr>"
  shows "adwin_mid_inv c (k + 1) a2 \<and> adw_W a2 = adw_W a \<and> adw_sum a2 = adw_sum a \<and>
         adw_num_add a2 = adw_num_add a"
proof -
  let ?ns = "adw_nodes a"
  let ?ns1 = "adw_nodes a1"
  let ?s = "node ! 0 + node ! 1"
  let ?X = "adwin_add_tail_window (?ns1 ! (k + 1)) ?s"
  let ?nsx = "?ns1[k + 1 := ?X]"
  let ?ns2 = "?nsx[k := drop 2 node]"
  from inv have ne: "?ns \<noteq> []" and idx: "adw_last_node_idx a = int (length ?ns) - 1"
    and nonempty: "\<And>j. 0 < j \<Longrightarrow> j < length ?ns \<Longrightarrow> ?ns ! j \<noteq> []"
    and sizes: "\<And>j. j < length ?ns \<Longrightarrow> length (?ns ! j) \<le> (if j = k then ADWIN_M c + 1 else ADWIN_M c)"
    and W: "unat (adw_W a) = bucket_count 0 ?ns" and S: "adw_sum a = bucket_total ?ns"
    by (auto simp: adwin_mid_inv_def)
  have nlen: "length node = ADWIN_M c + 1" using sizes [OF k] big by (simp add: node_def)
  with M have n2: "2 \<le> length node" by simp
  have ns1: "?ns1 = (if k + 1 < length ?ns then ?ns else ?ns @ [[]])"
    by (simp add: a1_def adwin_add_tail_node_def)
  have l1: "k + 1 < length ?ns1" using k by (simp add: ns1)
  have k1: "k < length ?ns1" using l1 by simp
  have nk1: "?ns1 ! k = node" using k by (simp add: ns1 node_def nth_append)
  have idx1: "adw_last_node_idx a1 = int (length ?ns1) - 1"
    using idx by (simp add: a1_def adwin_add_tail_node_def)
  have c1: "bucket_count 0 ?ns1 = bucket_count 0 ?ns"
    by (simp add: ns1 bucket_count_append)
  have t1: "bucket_total ?ns1 = bucket_total ?ns"
    by (simp add: ns1 bucket_total_append)
  have old1: "?ns1 ! j = ?ns ! j" if "j < length ?ns" for j
    using that by (simp add: ns1 nth_append)
  have new1: "?ns1 ! j = []" if "length ?ns \<le> j" "j < length ?ns1" for j
    using that by (auto simp: ns1 nth_append split: if_splits)
  have sz1: "length (?ns1 ! (k + 1)) \<le> ADWIN_M c"
  proof (cases "k + 1 < length ?ns")
    case True
    with sizes [of "k + 1"] old1 [of "k + 1"] show ?thesis by simp
  next
    case False
    with new1 [of "k + 1"] l1 show ?thesis by simp
  qed
  have lx: "length ?X = length (?ns1 ! (k + 1)) + 1" by (simp add: adwin_add_tail_window_def)
  have cx: "bucket_count 0 ?nsx = bucket_count 0 ?ns1 + 2 ^ (k + 1)"
    by (rule bucket_count_grow [OF l1 lx])
  have nxk: "?nsx ! k = node" using k1 nk1 by simp
  have kx: "k < length ?nsx" using k1 by simp
  have "bucket_count 0 (?nsx[k := drop 2 (?nsx ! k)]) + 2 ^ (k + 1) = bucket_count 0 ?nsx"
    by (rule bucket_count_shrink2 [OF kx]) (simp only: nxk n2)
  with cx have c2': "bucket_count 0 ?ns2 = bucket_count 0 ?ns1" by (simp only: nxk)
  have tx: "bucket_total ?nsx = bucket_total ?ns1 + ?s"
    by (rule bucket_total_grow [OF l1])
  have "bucket_total (?nsx[k := drop 2 (?nsx ! k)]) = bucket_total ?nsx - (?nsx ! k ! 0 + ?nsx ! k ! 1)"
    by (rule bucket_total_shrink2 [OF kx]) (simp only: nxk n2)
  with tx have t2: "bucket_total ?ns2 = bucket_total ?ns1" by (simp only: nxk) simp
  have len2: "length ?ns2 = length ?ns1" by simp
  have nth2: "?ns2 ! j = (if j = k then drop 2 node else if j = k + 1 then ?X else ?ns1 ! j)"
    if "j < length ?ns1" for j
    using that by (simp add: nth_list_update)
  have ne2: "?ns2 ! j \<noteq> []" if "0 < j" "j < length ?ns1" for j
  proof -
    consider "j = k" | "j = k + 1" | "j \<noteq> k" "j \<noteq> k + 1" by blast
    then show ?thesis
    proof cases
      case 1
      with nth2 [OF that(2)] nlen M show ?thesis by auto
    next
      case 2
      with nth2 [OF that(2)] show ?thesis by (simp add: adwin_add_tail_window_def)
    next
      case 3
      with that l1 have "j < length ?ns" by (auto simp: ns1 split: if_splits)
      with 3 nth2 [OF that(2)] old1 [of j] nonempty [of j] that(1) show ?thesis by simp
    qed
  qed
  have sz2: "length (?ns2 ! j) \<le> (if j = k + 1 then ADWIN_M c + 1 else ADWIN_M c)" if "j < length ?ns1" for j
  proof -
    consider "j = k" | "j = k + 1" | "j \<noteq> k" "j \<noteq> k + 1" by blast
    then show ?thesis
    proof cases
      case 1
      with nth2 [OF that] nlen show ?thesis by simp
    next
      case 2
      with nth2 [OF that] lx sz1 show ?thesis by simp
    next
      case 3
      with that l1 have "j < length ?ns" by (auto simp: ns1 split: if_splits)
      with 3 nth2 [OF that] old1 [of j] sizes [of j] show ?thesis by simp
    qed
  qed
  have nodes2: "adw_nodes a2 = ?ns2" by (simp add: a2_def)
  have f2: "adw_W a2 = adw_W a" "adw_sum a2 = adw_sum a" "adw_num_add a2 = adw_num_add a"
    "adw_last_node_idx a2 = adw_last_node_idx a1"
    by (simp_all add: a2_def a1_def adwin_add_tail_node_def)
  have "?ns2 \<noteq> []" using l1 len2 by (metis length_greater_0_conv less_nat_zero_code list.size(3))
  then have "adwin_mid_inv c (k + 1) a2"
    unfolding adwin_mid_inv_def nodes2 f2
    using idx1 ne2 sz2 c2' c1 W t2 t1 S len2 by (auto simp only:)
  with f2 show ?thesis by simp
qed


lemma inv_to_mid: "adwin_inv c a \<Longrightarrow> adwin_mid_inv c k a"
  by (auto simp: adwin_inv_def adwin_mid_inv_def le_SucI)

lemma mid_to_inv:
  assumes "adwin_mid_inv c k a" and "k < length (adw_nodes a) \<Longrightarrow> length (adw_nodes a ! k) \<le> ADWIN_M c"
  shows "adwin_inv c a"
proof -
  have "length (adw_nodes a ! j) \<le> ADWIN_M c" if "j < length (adw_nodes a)" for j
  proof (cases "j = k")
    case True
    with that assms(2) show ?thesis by simp
  next
    case False
    with that assms(1) show ?thesis by (auto simp: adwin_mid_inv_def)
  qed
  with assms(1) show ?thesis by (auto simp: adwin_inv_def adwin_mid_inv_def)
qed

lemma normalize_ok:
  "2 \<le> ADWIN_M c \<Longrightarrow> adwin_mid_inv c k a \<Longrightarrow>
   \<exists>a'. adwin_normlize_buckets c k a = Some a' \<and> adwin_inv c a' \<and>
        adw_W a' = adw_W a \<and> adw_sum a' = adw_sum a \<and> adw_num_add a' = adw_num_add a"
proof (induction c k a rule: adwin_normlize_buckets.induct)
  case (1 c k a)
  show ?case
  proof (cases "k < length (adw_nodes a)")
    case False
    then have "adwin_normlize_buckets c k a = Some a" by (subst adwin_normlize_buckets.simps) simp
    moreover have "adwin_inv c a" using mid_to_inv [OF "1.prems"(2)] False by simp
    ultimately show ?thesis by simp
  next
    case True
    note k = this
    let ?node = "adw_nodes a ! k"
    show ?thesis
    proof (cases "length ?node \<le> ADWIN_M c")
      case True
      with k have "adwin_normlize_buckets c k a = Some a"
        by (subst adwin_normlize_buckets.simps) (simp add: Let_def)
      moreover have "adwin_inv c a" using mid_to_inv [OF "1.prems"(2)] True by simp
      ultimately show ?thesis by simp
    next
      case False
      then have big: "ADWIN_M c < length ?node" by simp
      let ?a1 = "if k + 1 < length (adw_nodes a) then a else adwin_add_tail_node a"
      let ?s = "?node ! 0 + ?node ! 1"
      let ?a2 = "?a1\<lparr>adw_nodes := (adw_nodes ?a1)
              [k + 1 := adwin_add_tail_window (adw_nodes ?a1 ! (k + 1)) ?s, k := drop 2 ?node]\<rparr>"
      from big "1.prems"(1) have rm: "adwin_remove_front_windows ?node 2 = Some (drop 2 ?node)"
        by (simp add: adwin_remove_front_windows_def)
      have step: "adwin_normlize_buckets c k a = adwin_normlize_buckets c (k + 1) ?a2"
        using k False by (subst adwin_normlize_buckets.simps) (simp add: Let_def rm)
      from norm_step [OF "1.prems"(1) "1.prems"(2) k big]
      have mid2: "adwin_mid_inv c (k + 1) ?a2" and same: "adw_W ?a2 = adw_W a" "adw_sum ?a2 = adw_sum a"
        "adw_num_add ?a2 = adw_num_add a" by simp_all
      from "1.IH" [OF k refl False refl refl rm "1.prems"(1) mid2] same step
      show ?thesis by simp
    qed
  qed
qed


lemma inv_tail_bound:
  assumes inv: "adwin_inv c a" and tl: "last (adw_nodes a) \<noteq> []"
  shows "2 ^ (length (adw_nodes a) - 1) \<le> unat (adw_W a)" and "length (adw_nodes a) - 1 < 64"
proof -
  let ?ns = "adw_nodes a"
  from inv have ne: "?ns \<noteq> []" and W: "unat (adw_W a) = bucket_count 0 ?ns"
    by (auto simp: adwin_inv_def)
  from tl have "1 \<le> length (last ?ns)" by (cases "last ?ns") simp_all
  then have "2 ^ (length ?ns - 1) \<le> length (last ?ns) * 2 ^ (length ?ns - 1)" by simp
  also have "\<dots> \<le> bucket_count 0 ?ns" using bucket_count_butlast [OF ne, of 0] by simp
  finally show b: "2 ^ (length ?ns - 1) \<le> unat (adw_W a)" using W by simp
  have "unat (adw_W a) < 2 ^ LENGTH(64)" by (rule unsigned_less)
  with b have "(2::nat) ^ (length ?ns - 1) < 2 ^ LENGTH(64)" by (rule le_less_trans)
  then have "length ?ns - 1 < LENGTH(64)" by (rule power_less_imp_less_exp [rotated]) simp
  then show "length ?ns - 1 < 64" by simp
qed

lemma unat_push_bit_1:
  assumes "n < 64"
  shows "unat (push_bit n 1 :: u64) = 2 ^ n"
proof -
  have lt: "(2::nat) ^ n < 2 ^ LENGTH(64)" using assms by (intro power_strict_increasing) simp_all
  have "(push_bit n 1 :: u64) = word_of_nat (2 ^ n)" by simp
  then have "unat (push_bit n 1 :: u64) = 2 ^ n mod 2 ^ LENGTH(64)" by (simp only: unat_of_nat)
  with lt show ?thesis by (simp only: mod_less)
qed

lemma expire_ok:
  assumes inv: "adwin_inv c a" and tl: "last (adw_nodes a) \<noteq> []"
  shows "\<exists>a'. adwin_expire_last_window a = Some a' \<and> adwin_inv c a'"
proof -
  let ?ns = "adw_nodes a"
  let ?n = "length ?ns - 1"
  let ?tail = "last ?ns"
  let ?p = "push_bit ?n 1 :: u64"
  from inv have ne: "?ns \<noteq> []" and idx: "adw_last_node_idx a = int (length ?ns) - 1"
    and nonempty: "\<And>j. 0 < j \<Longrightarrow> j < length ?ns \<Longrightarrow> ?ns ! j \<noteq> []"
    and sizes: "\<And>j. j < length ?ns \<Longrightarrow> length (?ns ! j) \<le> ADWIN_M c"
    and W: "unat (adw_W a) = bucket_count 0 ?ns" and S: "adw_sum a = bucket_total ?ns"
    by (auto simp: adwin_inv_def)
  note b = inv_tail_bound [OF inv tl]
  have lpos: "0 < length ?ns" using ne by simp
  have idxn: "adw_last_node_idx a = int ?n" using idx lpos by (simp add: of_nat_diff Suc_le_eq)
  have sh: "shl_1ull (adw_last_node_idx a) = Some ?p"
    using b(2) by (simp add: shl_1ull_def idxn)
  have rm: "adwin_remove_front_windows ?tail 1 = Some (drop 1 ?tail)"
    using tl by (cases ?tail) (simp_all add: adwin_remove_front_windows_def)
  have up: "unat ?p = 2 ^ ?n" by (rule unat_push_bit_1 [OF b(2)])
  have ple: "?p \<le> adw_W a" using b(1) up by (simp add: word_le_nat_alt)
  have W': "unat (adw_W a - ?p) = bucket_count 0 ?ns - 2 ^ ?n"
    using unat_sub [OF ple] up W by simp
  obtain x rest where tail: "?tail = x # rest" using tl by (cases ?tail) auto
  have cnt: "bucket_count 0 ?ns = bucket_count 0 (butlast ?ns) + (length rest + 1) * 2 ^ ?n"
    using bucket_count_butlast [OF ne, of 0] tail by simp
  have tot: "bucket_total ?ns = bucket_total (butlast ?ns) + (x + sum_list rest)"
    using bucket_total_butlast [OF ne] tail by simp
  have t0: "?tail ! 0 = x" and d1: "drop 1 ?tail = rest" by (simp_all add: tail)
  have rm': "adwin_remove_front_windows ?tail (Suc 0) = Some rest"
    using rm d1 by simp
  have bl: "butlast ?ns ! j = ?ns ! j" if "j < length ?ns - 1" for j
    using that by (simp add: nth_butlast)
  show ?thesis
  proof (cases "rest = [] \<and> length ?ns \<noteq> 1")
    case True
    let ?a' = "a\<lparr>adw_W := adw_W a - ?p, adw_sum := adw_sum a - ?tail ! 0,
                  adw_nodes := butlast ?ns, adw_last_node_idx := adw_last_node_idx a - 1\<rparr>"
    have res: "adwin_expire_last_window a = Some ?a'"
      using True ne tl by (simp add: adwin_expire_last_window_def sh rm' Let_def)
    from True lpos have l2: "2 \<le> length ?ns" by linarith
    then have bne: "butlast ?ns \<noteq> []" by (cases ?ns; cases "tl ?ns") auto
    have "adwin_inv c ?a'"
      unfolding adwin_inv_def
    proof (intro conjI allI impI)
      show "adw_nodes ?a' \<noteq> []" using bne by simp
      show "adw_last_node_idx ?a' = int (length (adw_nodes ?a')) - 1" using idx l2 by simp
      show "adw_nodes ?a' ! k \<noteq> []" if "0 < k \<and> k < length (adw_nodes ?a')" for k
      proof -
        from that have k: "0 < k" "k < length ?ns - 1" "k < length ?ns" by auto
        from bl [OF k(2)] nonempty [OF k(1) k(3)] show ?thesis by simp
      qed
      show "length (adw_nodes ?a' ! k) \<le> ADWIN_M c" if "k < length (adw_nodes ?a')" for k
      proof -
        from that have k: "k < length ?ns - 1" "k < length ?ns" by auto
        from bl [OF k(1)] sizes [OF k(2)] show ?thesis by simp
      qed
      show "unat (adw_W ?a') = bucket_count 0 (adw_nodes ?a')"
        using W' cnt True by simp
      show "adw_sum ?a' = bucket_total (adw_nodes ?a')"
        using S tot t0 True by simp
    qed
    with res show ?thesis by blast
  next
    case False
    let ?a' = "a\<lparr>adw_W := adw_W a - ?p, adw_sum := adw_sum a - ?tail ! 0,
                  adw_nodes := butlast ?ns @ [rest]\<rparr>"
    have res: "adwin_expire_last_window a = Some ?a'"
      using False ne tl by (auto simp: adwin_expire_last_window_def sh rm' Let_def)
    have len': "length (butlast ?ns @ [rest]) = length ?ns" using lpos by simp
    have nth': "(butlast ?ns @ [rest]) ! k = (if k = ?n then rest else ?ns ! k)" if "k < length ?ns" for k
      using that by (auto simp: nth_append nth_butlast)
    have lastn: "?ns ! ?n = ?tail" using ne by (simp add: last_conv_nth)
    have "adwin_inv c ?a'"
      unfolding adwin_inv_def
    proof (intro conjI allI impI)
      show "adw_nodes ?a' \<noteq> []" by simp
      show "adw_last_node_idx ?a' = int (length (adw_nodes ?a')) - 1" using idx lpos by simp
      show "adw_nodes ?a' ! k \<noteq> []" if "0 < k \<and> k < length (adw_nodes ?a')" for k
      proof -
        from that len' have k0: "0 < k" and kl: "k < length ?ns" by simp_all
        note n = nth' [OF kl]
        show ?thesis
        proof (cases "k = ?n")
          case True
          with k0 have "length ?ns \<noteq> 1" by auto
          with False have "rest \<noteq> []" by simp
          with True n show ?thesis by simp
        next
          case False
          with n nonempty [OF k0 kl] show ?thesis by simp
        qed
      qed
      show "length (adw_nodes ?a' ! k) \<le> ADWIN_M c" if "k < length (adw_nodes ?a')" for k
      proof -
        from that len' have kl: "k < length ?ns" by simp
        note n = nth' [OF kl]
        show ?thesis
        proof (cases "k = ?n")
          case True
          have "length rest \<le> length ?tail" by (simp add: tail)
          also have "\<dots> \<le> ADWIN_M c" using sizes [of ?n] lastn lpos by simp
          finally show ?thesis using True n by simp
        next
          case False
          with n sizes [OF kl] show ?thesis by simp
        qed
      qed
      show "unat (adw_W ?a') = bucket_count 0 (adw_nodes ?a')"
        using W' cnt lpos by (simp add: bucket_count_append)
      show "adw_sum ?a' = bucket_total (adw_nodes ?a')"
        using S tot t0 by (simp add: bucket_total_append)
    qed
    with res show ?thesis by blast
  qed
qed


lemma adwin_inv_init: "adwin_inv c init_adwin"
  by (auto simp: adwin_inv_def init_adwin_def bucket_total_def)

lemma adwin_inv_num_add: "adwin_inv c (a\<lparr>adw_num_add := n\<rparr>) = adwin_inv c a"
  by (simp add: adwin_inv_def)

lemma pass_windows_defined:
  "0 \<le> e \<Longrightarrow> e < 64 \<Longrightarrow> pass_windows c sd W0 sum0 e ws st \<noteq> Shift_Undefined"
  by (induction ws arbitrary: st) (auto simp: shl_1ull_def Let_def split: prod.splits)

lemma pass_nodes_defined:
  "e < 64 \<Longrightarrow> int (length nodes) \<le> e + 1 \<Longrightarrow> pass_nodes c sd W0 sum0 e nodes st \<noteq> Shift_Undefined"
proof (induction nodes arbitrary: e st)
  case Nil
  show ?case by simp
next
  case (Cons node prevs)
  from Cons.prems have e0: "0 \<le> e" by simp
  note w = pass_windows_defined [OF e0 Cons.prems(1), of c sd W0 sum0 node st]
  show ?case
  proof (cases "pass_windows c sd W0 sum0 e node st")
    case (Next_Node st')
    have "pass_nodes c sd W0 sum0 (e - 1) prevs st' \<noteq> Shift_Undefined"
      using Cons.prems by (intro Cons.IH) simp_all
    with Next_Node show ?thesis by simp
  qed (use w in simp_all)
qed

lemma pass_windows_drop: "pass_windows c sd W0 sum0 e ws st = Drop \<Longrightarrow> ws \<noteq> []"
  by (cases ws) simp_all

lemma pass_nodes_drop:
  "pass_nodes c sd W0 sum0 e nodes st = Drop \<Longrightarrow> \<exists>node \<in> set nodes. node \<noteq> []"
proof (induction nodes arbitrary: e st)
  case Nil
  then show ?case by simp
next
  case (Cons node prevs)
  show ?case
  proof (cases "pass_windows c sd W0 sum0 e node st")
    case (Next_Node st')
    with Cons.prems have "pass_nodes c sd W0 sum0 (e - 1) prevs st' = Drop" by simp
    from Cons.IH [OF this] show ?thesis by auto
  next
    case Drop
    from pass_windows_drop [OF this] show ?thesis by simp
  qed (use Cons.prems in simp_all)
qed

lemma inv_tail_nonempty:
  assumes inv: "adwin_inv c a" and l: "length (adw_nodes a) \<noteq> 1"
  shows "last (adw_nodes a) \<noteq> []"
proof -
  let ?ns = "adw_nodes a"
  from inv have ne: "?ns \<noteq> []"
    and nonempty: "\<And>j. 0 < j \<Longrightarrow> j < length ?ns \<Longrightarrow> ?ns ! j \<noteq> []"
    by (auto simp: adwin_inv_def)
  from ne l have "0 < length ?ns - 1" "length ?ns - 1 < length ?ns"
    by (cases ?ns; cases "tl ?ns"; auto)+
  from nonempty [OF this] ne show ?thesis by (simp add: last_conv_nth)
qed

lemma inv_idx_bound:
  assumes inv: "adwin_inv c a"
  shows "adw_last_node_idx a < 64"
proof (cases "length (adw_nodes a) = 1")
  case True
  with inv show ?thesis by (simp add: adwin_inv_def)
next
  case False
  from inv_tail_bound(2) [OF inv inv_tail_nonempty [OF inv False]] inv
  show ?thesis by (auto simp: adwin_inv_def)
qed

lemma pass_defined: "adwin_inv c a \<Longrightarrow> adwin_pass c sd a \<noteq> Shift_Undefined"
  unfolding adwin_pass_def
  by (rule pass_nodes_defined [OF inv_idx_bound]) (auto simp: adwin_inv_def)

lemma pass_drop_tail:
  assumes inv: "adwin_inv c a" and d: "adwin_pass c sd a = Drop"
  shows "last (adw_nodes a) \<noteq> []"
proof (cases "length (adw_nodes a) = 1")
  case True
  then obtain node where ns: "adw_nodes a = [node]" by (cases "adw_nodes a") auto
  from pass_nodes_drop [OF d [unfolded adwin_pass_def]] ns show ?thesis by simp
next
  case False
  from inv_tail_nonempty [OF inv False] show ?thesis .
qed

lemma drop_loop_ok:
  "adwin_inv c a \<Longrightarrow> \<exists>a'. adwin_drop_loop c sd a = Some a' \<and> adwin_inv c a'"
proof (induction c sd a rule: adwin_drop_loop.induct)
  case (1 c sd a)
  note inv = "1.prems"
  show ?case
  proof (cases "adwin_pass c sd a")
    case Drop
    show ?thesis
    proof (cases "ADWIN_ADAPTIVE_RESETTING c")
      case True
      with Drop show ?thesis by (subst adwin_drop_loop.simps) (simp add: adwin_inv_init)
    next
      case False
      from expire_ok [OF inv pass_drop_tail [OF inv Drop]]
      obtain a1 where e: "adwin_expire_last_window a = Some a1" and i: "adwin_inv c a1" by blast
      from "1.IH" [OF Drop False e i]
      obtain a' where "adwin_drop_loop c sd a1 = Some a'" "adwin_inv c a'" by blast
      with Drop False e show ?thesis by (subst adwin_drop_loop.simps) simp
    qed
  next
    case Check_End
    with inv show ?thesis by (subst adwin_drop_loop.simps) simp
  next
    case (Next_Node st)
    with inv show ?thesis by (subst adwin_drop_loop.simps) simp
  next
    case Shift_Undefined
    with pass_defined [OF inv, of sd] show ?thesis by simp
  qed
qed

lemma drop_last_ok:
  "adwin_inv c a \<Longrightarrow> \<exists>a'. adwin_drop_last_till_identical c sd a = Some a' \<and> adwin_inv c a'"
  by (simp add: adwin_drop_last_till_identical_def drop_loop_ok)

lemma add_head_mid:
  assumes inv: "adwin_inv c a" and room: "unat (adw_W a) + 1 < 2 ^ 64"
  shows "adwin_mid_inv c 0
           (a\<lparr>adw_W := adw_W a + 1, adw_sum := adw_sum a + s,
              adw_nodes := (adw_nodes a)[0 := adwin_add_tail_window (adw_nodes a ! 0) s]\<rparr>)"
proof -
  let ?ns = "adw_nodes a"
  let ?ns' = "?ns[0 := adwin_add_tail_window (?ns ! 0) s]"
  from inv have ne: "?ns \<noteq> []" and idx: "adw_last_node_idx a = int (length ?ns) - 1"
    and nonempty: "\<And>j. 0 < j \<Longrightarrow> j < length ?ns \<Longrightarrow> ?ns ! j \<noteq> []"
    and sizes: "\<And>j. j < length ?ns \<Longrightarrow> length (?ns ! j) \<le> ADWIN_M c"
    and W: "unat (adw_W a) = bucket_count 0 ?ns" and S: "adw_sum a = bucket_total ?ns"
    by (auto simp: adwin_inv_def)
  have lpos: "0 < length ?ns" using ne by simp
  have W1: "unat (adw_W a + 1) = unat (adw_W a) + 1"
  proof -
    have "unat (adw_W a) + unat (1 :: u64) < 2 ^ LENGTH(64)" using room by simp
    then have "unat (adw_W a + 1) = unat (adw_W a) + unat (1 :: u64)" by (simp only: unat_add_lem)
    then show ?thesis by simp
  qed
  have cnt: "bucket_count 0 ?ns' = bucket_count 0 ?ns + 2 ^ 0"
    by (rule bucket_count_grow [OF lpos]) (simp add: adwin_add_tail_window_def)
  have tot: "bucket_total ?ns' = bucket_total ?ns + s" by (rule bucket_total_grow [OF lpos])
  have nth': "?ns' ! j = (if j = 0 then adwin_add_tail_window (?ns ! 0) s else ?ns ! j)"
    if "j < length ?ns" for j
    using that by (cases j) simp_all
  show ?thesis
    unfolding adwin_mid_inv_def
  proof (intro conjI allI impI)
    fix j
    assume "0 < j \<and> j < length (adw_nodes (a\<lparr>adw_W := adw_W a + 1, adw_sum := adw_sum a + s, adw_nodes := ?ns'\<rparr>))"
    then have j: "0 < j" "j < length ?ns" by simp_all
    from nth' [OF j(2)] nonempty [OF j] j(1) 
    show "adw_nodes (a\<lparr>adw_W := adw_W a + 1, adw_sum := adw_sum a + s, adw_nodes := ?ns'\<rparr>) ! j \<noteq> []"
      by simp
  next
    fix j
    assume "j < length (adw_nodes (a\<lparr>adw_W := adw_W a + 1, adw_sum := adw_sum a + s, adw_nodes := ?ns'\<rparr>))"
    then have j: "j < length ?ns" by simp
    from nth' [OF j] sizes [OF j]
    show "length (adw_nodes (a\<lparr>adw_W := adw_W a + 1, adw_sum := adw_sum a + s, adw_nodes := ?ns'\<rparr>) ! j)
          \<le> (if j = 0 then ADWIN_M c + 1 else ADWIN_M c)"
      by (auto simp: adwin_add_tail_window_def)
  qed (use ne idx W S W1 cnt tot in simp_all)
qed

text \<open>
  A call that merges the two oldest windows of the head into the tail and then expires
  one window of the tail.
\<close>

lemma adwin_add_elem_example:
  "adwin_add_elem
     \<lparr>ADWIN_M = 2, ADWIN_MIN_ELEM_TO_START_DROP = 0, ADWIN_MIN_ELEM_TO_CHECK = 2,
      ADWIN_DROP_INTERVAL = 1, ADWIN_ADAPTIVE_RESETTING = False\<rparr>
     (\<lambda>s0 n0 s1 n1 W0 sum0. True)
     \<lparr>adw_nodes = [[1, 0], [1]], adw_last_node_idx = 1, adw_W = 4, adw_sum = 2, adw_num_add = 0\<rparr> 1
   = Some \<lparr>adw_nodes = [[1], [1]], adw_last_node_idx = 1, adw_W = 3, adw_sum = 2, adw_num_add = 0\<rparr>"
  by code_simp

text \<open>
  Claim C9.  After every call of \<^verbatim>\<open>adwin_add_elem\<close>, with the bucket normalisation it performs
  and the windows expired (or the reset made) by change detection, \<^verbatim>\<open>W\<close> is the sum over the
  nodes \<open>k\<close> of the number of windows of node \<open>k\<close> times \<open>2 ^ k\<close>, and \<^verbatim>\<open>sum\<close> is the total of
  all windows.  The call returns, with no undefined shift and no read of a missing window,
  and the invariant \<^const>\<open>adwin_inv\<close> holds again, so that it holds after every call of a
  run that starts from \<^const>\<open>init_adwin\<close>.  This is for \<^verbatim>\<open>ADWIN_M\<close> at least 2, an instance
  that satisfies the invariant before the call, a \<^verbatim>\<open>W\<close> that \<^verbatim>\<open>W++\<close> does not wrap around, and
  any answers of \<^verbatim>\<open>adwin_should_drop\<close>.
\<close>

theorem adwin_add_elem_invariant:
  assumes M: "2 \<le> ADWIN_M c" and inv: "adwin_inv c a" and room: "unat (adw_W a) + 1 < 2 ^ 64"
  shows "\<exists>a'. adwin_add_elem c should_drop a reward = Some a' \<and>
           unat (adw_W a') = bucket_count 0 (adw_nodes a') \<and>
           adw_sum a' = bucket_total (adw_nodes a') \<and> adwin_inv c a'"
proof -
  let ?a1 = "a\<lparr>adw_W := adw_W a + 1, adw_sum := adw_sum a + ucast reward,
      adw_nodes := (adw_nodes a)[0 := adwin_add_tail_window (adw_nodes a ! 0) (ucast reward)]\<rparr>"
  from normalize_ok [OF M add_head_mid [OF inv room, of "ucast reward"]]
  obtain a2 where n: "adwin_normlize_buckets c 0 ?a1 = Some a2" and i2: "adwin_inv c a2" by blast
  have "\<exists>a'. adwin_add_elem c should_drop a reward = Some a' \<and> adwin_inv c a'"
  proof (cases "ADWIN_DROP_INTERVAL c \<noteq> 1")
    case False
    with n drop_last_ok [OF i2, of should_drop] show ?thesis
      by (simp add: adwin_add_elem_def Let_def)
  next
    case True
    let ?a3 = "a2\<lparr>adw_num_add := adw_num_add a2 + 1\<rparr>"
    show ?thesis
    proof (cases "adw_num_add ?a3 \<noteq> ADWIN_DROP_INTERVAL c")
      case True
      with \<open>ADWIN_DROP_INTERVAL c \<noteq> 1\<close> n i2 show ?thesis
        by (simp add: adwin_add_elem_def Let_def adwin_inv_num_add)
    next
      case False
      have "adwin_inv c (?a3\<lparr>adw_num_add := 0\<rparr>)" using i2 by (simp add: adwin_inv_def)
      from drop_last_ok [OF this, of should_drop] False \<open>ADWIN_DROP_INTERVAL c \<noteq> 1\<close> n
      show ?thesis by (simp add: adwin_add_elem_def Let_def)
    qed
  qed
  then show ?thesis by (auto simp: adwin_inv_def)
qed


theorem adwin_add_elem_invariant_witness:
  "adwin_inv
     \<lparr>ADWIN_M = 2, ADWIN_MIN_ELEM_TO_START_DROP = 0, ADWIN_MIN_ELEM_TO_CHECK = 2,
      ADWIN_DROP_INTERVAL = 1, ADWIN_ADAPTIVE_RESETTING = False\<rparr>
     \<lparr>adw_nodes = [[1, 0], [1]], adw_last_node_idx = 1, adw_W = 4, adw_sum = 2, adw_num_add = 0\<rparr> \<and>
   (\<exists>a'. adwin_add_elem
       \<lparr>ADWIN_M = 2, ADWIN_MIN_ELEM_TO_START_DROP = 0, ADWIN_MIN_ELEM_TO_CHECK = 2,
        ADWIN_DROP_INTERVAL = 1, ADWIN_ADAPTIVE_RESETTING = False\<rparr>
       (\<lambda>s0 n0 s1 n1 W0 sum0. True)
       \<lparr>adw_nodes = [[1, 0], [1]], adw_last_node_idx = 1, adw_W = 4, adw_sum = 2, adw_num_add = 0\<rparr> 1
       = Some a' \<and>
     unat (adw_W a') = bucket_count 0 (adw_nodes a') \<and>
     adw_sum a' = bucket_total (adw_nodes a') \<and>
     adwin_inv
       \<lparr>ADWIN_M = 2, ADWIN_MIN_ELEM_TO_START_DROP = 0, ADWIN_MIN_ELEM_TO_CHECK = 2,
        ADWIN_DROP_INTERVAL = 1, ADWIN_ADAPTIVE_RESETTING = False\<rparr> a')"
proof -
  let ?c = "\<lparr>ADWIN_M = 2, ADWIN_MIN_ELEM_TO_START_DROP = 0, ADWIN_MIN_ELEM_TO_CHECK = 2,
      ADWIN_DROP_INTERVAL = 1, ADWIN_ADAPTIVE_RESETTING = False\<rparr>"
  let ?a = "\<lparr>adw_nodes = [[1, 0], [1]], adw_last_node_idx = 1, adw_W = 4, adw_sum = 2, adw_num_add = 0\<rparr>"
  have M: "2 \<le> ADWIN_M ?c" by simp
  have nodes: "[[1, 0], [1 :: u64]] ! k \<noteq> [] \<and> length ([[1, 0], [1 :: u64]] ! k) \<le> 2"
    if "k < 2" for k
    using less_2_cases [OF that] by auto
  have inv: "adwin_inv ?c ?a"
    unfolding adwin_inv_def using nodes by (simp add: bucket_total_def)
  have room: "unat (adw_W ?a) + 1 < 2 ^ 64" by simp
  from adwin_add_elem_invariant [OF M inv room] inv show ?thesis by blast
qed

end
